theory Spec2Isabelle
  imports Main "HOL-Library.Word" "HOL-Library.AList"
begin

unbundle bit_operations_syntax

section \<open>Texts, bytes and errors\<close>

text \<open>
  A Python \<open>str\<close> is a sequence of Unicode code points; a \<open>str\<close> of the model is the list of its code
  points. Bytes are 8-bit words. Every exception the embedded code can meet is a value of
  \<open>error\<close>.
\<close>

type_synonym str = "nat list"
type_synonym byte = "8 word"

datatype error = UnicodeEncodeError | FileNotFoundError | PermissionError

definition ascii :: "string \<Rightarrow> str" where
  "ascii s = map of_char s"

subsection \<open>\<open>str.lower\<close>\<close>

text \<open>
  CPython lower-cases a string that holds ASCII only by its ASCII table (A-Z to a-z), and
  any other string by the case mappings of the Unicode character database. That database
  is no part of the repository: it is the parameter \<open>ucd\<close>, and nothing is assumed of it.
\<close>

definition ascii_lower :: "nat \<Rightarrow> nat" where
  "ascii_lower c = (if 65 \<le> c \<and> c \<le> 90 then c + 32 else c)"

definition lower :: "(str \<Rightarrow> str) \<Rightarrow> str \<Rightarrow> str" where
  "lower ucd t = (if list_all (\<lambda>c. c < 128) t then map ascii_lower t else ucd t)"

subsection \<open>\<open>str.split()\<close> and \<open>''.join\<close>\<close>

text \<open>
  The code points for which \<open>str.isspace\<close> holds; \<open>str.split()\<close> with no separator
  splits at the runs of these.
\<close>

definition isspace :: "nat \<Rightarrow> bool" where
  "isspace c \<longleftrightarrow>
     (9 \<le> c \<and> c \<le> 13) \<or> (28 \<le> c \<and> c \<le> 32) \<or> c = 133 \<or> c = 160 \<or> c = 5760 \<or>
     (8192 \<le> c \<and> c \<le> 8202) \<or> c = 8232 \<or> c = 8233 \<or> c = 8239 \<or> c = 8287 \<or>
     c = 12288"

text \<open>
  \<open>split\<close>: skip the whitespace, stop at the end of the string, else cut the word that
  runs up to the next whitespace and go on behind it.
\<close>

function split :: "str \<Rightarrow> str list" where
  "split s =
     (case dropWhile isspace s of
        [] \<Rightarrow> []
      | c # cs \<Rightarrow> takeWhile (\<lambda>x. \<not> isspace x) (c # cs) # split (dropWhile (\<lambda>x. \<not> isspace x) (c # cs)))"
  by pat_completeness auto
termination
proof (relation "measure length", goal_cases)
  case 1
  show ?case by simp
next
  case (2 s c cs)
  have "\<not> isspace c"
    using 2 hd_dropWhile [of isspace s] by (metis list.sel(1) list.distinct(1))
  then have "length (dropWhile (\<lambda>x. \<not> isspace x) (c # cs)) \<le> length cs"
    by (simp add: length_dropWhile_le)
  moreover have "length (c # cs) \<le> length s"
    using 2 length_dropWhile_le [of isspace s] by simp
  ultimately show ?case by simp
qed

declare split.simps [simp del]

definition join :: "str \<Rightarrow> str list \<Rightarrow> str" where
  "join sep ws = (case ws of [] \<Rightarrow> [] | w # r \<Rightarrow> w @ concat (map (\<lambda>x. sep @ x) r))"

subsection \<open>\<open>str.encode('utf-8')\<close>\<close>

text \<open>
  One to four bytes for a code point; a surrogate (D800 to DFFF) cannot be encoded and
  raises. A number from 110000 on is no code point of a \<open>str\<close>; the model refuses it in
  the same way.
\<close>

definition encode_cp :: "nat \<Rightarrow> error + byte list" where
  "encode_cp c =
     (if c < 128 then Inr [of_nat c]
      else if c < 2048 then Inr [of_nat (192 + c div 64), of_nat (128 + c mod 64)]
      else if 55296 \<le> c \<and> c \<le> 57343 then Inl UnicodeEncodeError
      else if c < 65536 then
        Inr [of_nat (224 + c div 4096), of_nat (128 + c div 64 mod 64), of_nat (128 + c mod 64)]
      else if c < 1114112 then
        Inr [of_nat (240 + c div 262144), of_nat (128 + c div 4096 mod 64),
             of_nat (128 + c div 64 mod 64), of_nat (128 + c mod 64)]
      else Inl UnicodeEncodeError)"

fun encode_utf8 :: "str \<Rightarrow> error + byte list" where
  "encode_utf8 [] = Inr []"
| "encode_utf8 (c # cs) =
     (case encode_cp c of
        Inl e \<Rightarrow> Inl e
      | Inr bs \<Rightarrow> (case encode_utf8 cs of Inl e \<Rightarrow> Inl e | Inr r \<Rightarrow> Inr (bs @ r)))"

section \<open>SHA-256 (\<open>hashlib.sha256\<close>)\<close>

text \<open>
  The hash of the standard library, after FIPS 180-4: padding to a multiple of 64 bytes,
  a schedule of 64 words per block, 64 rounds on eight 32-bit words. The round constants
  \<open>K\<close> and the initial hash value \<open>H0\<close> are written in decimal.
\<close>

type_synonym w32 = "32 word"

definition K :: "w32 list" where
  "K =
     [1116352408, 1899447441, 3049323471, 3921009573, 961987163, 1508970993, 2453635748,
      2870763221, 3624381080, 310598401, 607225278, 1426881987, 1925078388, 2162078206,
      2614888103, 3248222580, 3835390401, 4022224774, 264347078, 604807628, 770255983,
      1249150122, 1555081692, 1996064986, 2554220882, 2821834349, 2952996808, 3210313671,
      3336571891, 3584528711, 113926993, 338241895, 666307205, 773529912, 1294757372,
      1396182291, 1695183700, 1986661051, 2177026350, 2456956037, 2730485921, 2820302411,
      3259730800, 3345764771, 3516065817, 3600352804, 4094571909, 275423344, 430227734,
      506948616, 659060556, 883997877, 958139571, 1322822218, 1537002063, 1747873779,
      1955562222, 2024104815, 2227730452, 2361852424, 2428436474, 2756734187, 3204031479,
      3329325298]"

definition H0 :: "w32 list" where
  "H0 =
     [1779033703, 3144134277, 1013904242, 2773480762, 1359893119, 2600822924, 528734635,
      1541459225]"

definition rotr :: "nat \<Rightarrow> w32 \<Rightarrow> w32" where
  "rotr n x = drop_bit n x OR push_bit (32 - n) x"

definition ch :: "w32 \<Rightarrow> w32 \<Rightarrow> w32 \<Rightarrow> w32" where
  "ch x y z = (x AND y) XOR (NOT x AND z)"

definition maj :: "w32 \<Rightarrow> w32 \<Rightarrow> w32 \<Rightarrow> w32" where
  "maj x y z = (x AND y) XOR (x AND z) XOR (y AND z)"

definition bsig0 :: "w32 \<Rightarrow> w32" where
  "bsig0 x = rotr 2 x XOR rotr 13 x XOR rotr 22 x"

definition bsig1 :: "w32 \<Rightarrow> w32" where
  "bsig1 x = rotr 6 x XOR rotr 11 x XOR rotr 25 x"

definition ssig0 :: "w32 \<Rightarrow> w32" where
  "ssig0 x = rotr 7 x XOR rotr 18 x XOR drop_bit 3 x"

definition ssig1 :: "w32 \<Rightarrow> w32" where
  "ssig1 x = rotr 17 x XOR rotr 19 x XOR drop_bit 10 x"

text \<open>\<open>be_bytes k n\<close>: the low \<open>k\<close> bytes of \<open>n\<close>, the most significant first.\<close>

fun be_bytes :: "nat \<Rightarrow> nat \<Rightarrow> byte list" where
  "be_bytes 0 n = []"
| "be_bytes (Suc k) n = be_bytes k (n div 256) @ [of_nat n]"

definition pad :: "byte list \<Rightarrow> byte list" where
  "pad m =
     m @ [0x80] @ replicate ((64 - (length m + 9) mod 64) mod 64) 0 @ be_bytes 8 (8 * length m)"

definition be32 :: "byte list \<Rightarrow> w32" where
  "be32 bs = foldl (\<lambda>acc b. push_bit 8 acc OR ucast b) 0 bs"

fun words :: "nat \<Rightarrow> byte list \<Rightarrow> w32 list" where
  "words 0 bs = []"
| "words (Suc n) bs = be32 (take 4 bs) # words n (drop 4 bs)"

text \<open>The schedule, on a window of the sixteen words before the one it adds.\<close>

fun schedule :: "nat \<Rightarrow> w32 list \<Rightarrow> w32 list" where
  "schedule 0 ws = []"
| "schedule (Suc n) ws =
     hd ws # schedule n (tl ws @ [ssig1 (ws ! 14) + ws ! 9 + ssig0 (ws ! 1) + ws ! 0])"

text \<open>One round on the eight working words, and the 64 rounds of a block.\<close>

definition mix :: "w32 \<Rightarrow> w32 \<Rightarrow> w32 list \<Rightarrow> w32 list" where
  "mix t1 t2 s = [t1 + t2, s ! 0, s ! 1, s ! 2, s ! 3 + t1, s ! 4, s ! 5, s ! 6]"

definition round :: "w32 list \<Rightarrow> w32 \<times> w32 \<Rightarrow> w32 list" where
  "round s kw =
     mix (s ! 7 + bsig1 (s ! 4) + ch (s ! 4) (s ! 5) (s ! 6) + fst kw + snd kw)
         (bsig0 (s ! 0) + maj (s ! 0) (s ! 1) (s ! 2)) s"

definition rounds :: "w32 list \<Rightarrow> (w32 \<times> w32) list \<Rightarrow> w32 list" where
  "rounds s kws = foldl round s kws"

definition compress :: "w32 list \<Rightarrow> byte list \<Rightarrow> w32 list" where
  "compress h block = map2 (+) h (rounds h (zip K (schedule 64 (words 16 block))))"

fun blocks :: "nat \<Rightarrow> w32 list \<Rightarrow> byte list \<Rightarrow> w32 list" where
  "blocks 0 h bs = h"
| "blocks (Suc n) h bs = blocks n (compress h (take 64 bs)) (drop 64 bs)"

definition sha256 :: "byte list \<Rightarrow> w32 list" where
  "sha256 m = (let p = pad m in blocks (length p div 64) H0 p)"

definition hex_digit :: "nat \<Rightarrow> char" where
  "hex_digit n = ''0123456789abcdef'' ! (n mod 16)"

definition hex32 :: "w32 \<Rightarrow> string" where
  "hex32 w = map (\<lambda>i. hex_digit (unat (drop_bit (4 * (7 - i)) w))) [0 ..< 8]"

definition hexdigest :: "w32 list \<Rightarrow> string" where
  "hexdigest h = concat (map hex32 h)"

section \<open>The fingerprint\<close>

text \<open>
  \<^verbatim>\<open>normalized = ''.join(text.lower().split())\<close>
  \<^verbatim>\<open>return hashlib.sha256(normalized.encode('utf-8')).hexdigest()\<close>
\<close>

definition sha256_hash :: "(str \<Rightarrow> str) \<Rightarrow> str \<Rightarrow> error + string" where
  "sha256_hash ucd t =
     (let normalized = join [] (split (lower ucd t))
      in case encode_utf8 normalized of
           Inl e \<Rightarrow> Inl e
         | Inr bs \<Rightarrow> Inr (hexdigest (sha256 bs)))"

section \<open>File names\<close>

text \<open>
  File names are strings of 8-bit characters, compared exactly (a case-sensitive file
  system). \<open>lower_name\<close> is \<open>str.lower\<close> on such a name: it changes A-Z only.
\<close>

definition lower_char :: "char \<Rightarrow> char" where
  "lower_char c =
     (case map_of (zip ''ABCDEFGHIJKLMNOPQRSTUVWXYZ'' ''abcdefghijklmnopqrstuvwxyz'') c of
        None \<Rightarrow> c
      | Some l \<Rightarrow> l)"

definition lower_name :: "string \<Rightarrow> string" where
  "lower_name f = map lower_char f"

definition endswith :: "string \<Rightarrow> string \<Rightarrow> bool" where
  "endswith s suffix \<longleftrightarrow>
     length suffix \<le> length s \<and> drop (length s - length suffix) s = suffix"

definition rfind :: "char \<Rightarrow> string \<Rightarrow> nat option" where
  "rfind c p =
     (let k = length (takeWhile (\<lambda>x. x \<noteq> c) (rev p))
      in if k = length p then None else Some (length p - 1 - k))"

text \<open>
  \<open>os.path.splitext\<close> on a name without a directory part: the extension starts at the
  last dot, unless only dots stand before it.
\<close>

definition splitext :: "string \<Rightarrow> string \<times> string" where
  "splitext p =
     (case rfind (CHR ''.'') p of
        None \<Rightarrow> (p, [])
      | Some i \<Rightarrow>
          if list_ex (\<lambda>c. c \<noteq> CHR ''.'') (take i p) then (take i p, drop i p) else (p, []))"

section \<open>The file system and the log\<close>

text \<open>
  A regular file: \<open>content\<close> is the text that reading it with the utf-8 codec yields,
  \<open>readable\<close> tells whether opening it for reading succeeds (a locked or protected file
  is not readable), \<open>st_size\<close> and \<open>st_mtime\<close> are what \<open>os.stat\<close> reports.

  The five bucket directories and the repository hold regular files only; a directory of
  these is the list of its entries in the order \<open>os.listdir\<close> reports them, and a new
  entry goes to the end of it. The source folder the user names is a tree; it is only
  read. The directories named by the user are other directories than the buckets.
\<close>

record regfile =
  content :: str
  readable :: bool
  st_size :: nat
  st_mtime :: nat

datatype node = File regfile | Dir "(string \<times> node) list"

type_synonym folder = "(string \<times> regfile) list"

datatype path =
    MAIN_PDF_FOLDER
  | EXTRACTED_TEXT_FOLDER
  | EXCEPTION_FOLDER
  | UNIQUE_INVOICES_FOLDER
  | DUPLICATES_INVOICES_FOLDER
  | Folder string

datatype extractor = Pdfplumber | Ocr

text \<open>
  One constructor for each line the code logs, with the values the line shows; the lines
  that report elapsed time are left out.
\<close>

datatype event =
    Version
  | CopyingFiles
  | NonPdfToException string
  | PdfsCopied nat
  | NonPdfsMoved nat
  | ErrorCopying error
  | StartingExtraction
  | ExtractedText string "extractor option"
  | FailedSaveText string error
  | ExtractionFailedMoved string
  | FailedMoveToException string error
  | ExtractionDone nat nat
  | StartingDeduplication
  | RemovedDuplicateText string string
  | MovedDuplicatePdf string
  | ErrorDeduplication string error
  | DeduplicationDone nat
  | CrossComparing string
  | CouldNotReadRepoFile string error
  | MovedDuplicateDeletedText string
  | MovedUniquePdf string
  | ErrorComparing string error
  | CopiedExceptionPdf string
  | CouldNotCopyExceptionPdf string error
  | CrossComparisonComplete nat nat
  | UpdatingRepository string
  | MovedRenamed string string
  | FailedMoveRename string error
  | MovedRenamedCount nat
  | NoLeftoverPdfs
  | CleaningLeftover
  | MovedLeftoverPdf string
  | FailedMoveLeftover string error
  | AllTasksCompleted

record state =
  dirs :: "path \<Rightarrow> folder option"
  messages :: "event list"

definition log :: "event \<Rightarrow> state \<Rightarrow> state" where
  "log msg s = s\<lparr>messages := messages s @ [msg]\<rparr>"

subsection \<open>\<open>os\<close> and \<open>shutil\<close>\<close>

definition listdir :: "state \<Rightarrow> path \<Rightarrow> error + string list" where
  "listdir s d = (case dirs s d of None \<Rightarrow> Inl FileNotFoundError | Some es \<Rightarrow> Inr (map fst es))"

definition lookup :: "state \<Rightarrow> path \<Rightarrow> string \<Rightarrow> regfile option" where
  "lookup s d n = (case dirs s d of None \<Rightarrow> None | Some es \<Rightarrow> map_of es n)"

definition path_exists :: "state \<Rightarrow> path \<Rightarrow> string \<Rightarrow> bool" where
  "path_exists s d n \<longleftrightarrow> lookup s d n \<noteq> None"

text \<open>\<open>open(path, 'r', encoding='utf-8').read()\<close>\<close>

definition read_text :: "state \<Rightarrow> path \<Rightarrow> string \<Rightarrow> error + str" where
  "read_text s d n =
     (case lookup s d n of
        None \<Rightarrow> Inl FileNotFoundError
      | Some f \<Rightarrow> if readable f then Inr (content f) else Inl PermissionError)"

text \<open>\<open>os.remove\<close>\<close>

definition remove :: "path \<Rightarrow> string \<Rightarrow> state \<Rightarrow> error + state" where
  "remove d n s =
     (case dirs s d of
        None \<Rightarrow> Inl FileNotFoundError
      | Some es \<Rightarrow>
          if map_of es n = None then Inl FileNotFoundError
          else Inr (s\<lparr>dirs := (dirs s)(d \<mapsto> AList.delete n es)\<rparr>))"

text \<open>
  \<open>shutil.copy2\<close> of a file to the name \<open>n\<close> in directory \<open>d\<close>: the source is read, the
  target is written or overwritten, the metadata go with the content.
\<close>

definition copy2 :: "regfile option \<Rightarrow> path \<Rightarrow> string \<Rightarrow> state \<Rightarrow> error + state" where
  "copy2 src d n s =
     (case src of
        None \<Rightarrow> Inl FileNotFoundError
      | Some f \<Rightarrow>
          if \<not> readable f then Inl PermissionError
          else (case dirs s d of
                  None \<Rightarrow> Inl FileNotFoundError
                | Some es \<Rightarrow> Inr (s\<lparr>dirs := (dirs s)(d \<mapsto> AList.update n f es)\<rparr>)))"

text \<open>
  \<open>shutil.move\<close> from one directory to another one: a rename, which overwrites a file of
  the target's name.
\<close>

definition move :: "path \<Rightarrow> string \<Rightarrow> path \<Rightarrow> string \<Rightarrow> state \<Rightarrow> error + state" where
  "move d n d' n' s =
     (case dirs s d of
        None \<Rightarrow> Inl FileNotFoundError
      | Some es \<Rightarrow>
          (case map_of es n of
             None \<Rightarrow> Inl FileNotFoundError
           | Some f \<Rightarrow>
               (case dirs s d' of
                  None \<Rightarrow> Inl FileNotFoundError
                | Some es' \<Rightarrow>
                    Inr (s\<lparr>dirs := (dirs s)(d \<mapsto> AList.delete n es, d' \<mapsto> AList.update n' f es')\<rparr>))))"

text \<open>\<open>os.makedirs(d, exist_ok=True)\<close>\<close>

definition makedirs :: "path \<Rightarrow> state \<Rightarrow> state" where
  "makedirs d s = (case dirs s d of None \<Rightarrow> s\<lparr>dirs := (dirs s)(d \<mapsto> [])\<rparr> | Some es \<Rightarrow> s)"

definition ensure_folders :: "state \<Rightarrow> state" where
  "ensure_folders s =
     makedirs DUPLICATES_INVOICES_FOLDER (makedirs UNIQUE_INVOICES_FOLDER
       (makedirs EXCEPTION_FOLDER (makedirs EXTRACTED_TEXT_FOLDER (makedirs MAIN_PDF_FOLDER s))))"

section \<open>Intake: \<open>copy_pdfs_to_main_folder\<close>\<close>

fun files :: "(string \<times> node) list \<Rightarrow> (string \<times> regfile) list" where
  "files [] = []"
| "files ((n, File f) # es) = (n, f) # files es"
| "files ((n, Dir sub) # es) = files es"

text \<open>
  \<open>os.walk\<close>, top down: the files of a directory in the order of its listing, then its
  subdirectories, one after the other.
\<close>

fun walk :: "(string \<times> node) list \<Rightarrow> (string \<times> regfile) list"
  and walk_dirs :: "(string \<times> node) list \<Rightarrow> (string \<times> regfile) list" where
  "walk es = files es @ walk_dirs es"
| "walk_dirs [] = []"
| "walk_dirs ((n, File f) # es) = walk_dirs es"
| "walk_dirs ((n, Dir sub) # es) = walk sub @ walk_dirs es"

fun is_dir :: "string \<times> node \<Rightarrow> bool" where
  "is_dir (n, Dir sub) = True"
| "is_dir (n, File f) = False"

text \<open>
  \<open>process_file\<close> raises when the copy fails. The counters are the enclosing function's
  \<open>pdf_count\<close> and \<open>other_count\<close>.
\<close>

definition process_file :: "regfile \<Rightarrow> string \<Rightarrow> nat \<times> nat \<times> state \<Rightarrow> error + nat \<times> nat \<times> state" where
  "process_file src filename v =
     (case v of (pdf_count, other_count, s) \<Rightarrow>
        (let dst_folder =
               (if endswith (lower_name filename) ''.pdf'' then MAIN_PDF_FOLDER else EXCEPTION_FOLDER)
         in (case copy2 (Some src) dst_folder filename s of
               Inl e \<Rightarrow> Inl e
             | Inr s' \<Rightarrow>
                 if dst_folder = MAIN_PDF_FOLDER then Inr (pdf_count + 1, other_count, s')
                 else Inr (pdf_count, other_count + 1, log (NonPdfToException filename) s'))))"

text \<open>
  The loop over the files of the walk (or of the flat listing). There is no handler
  inside it: the first exception leaves the loop, with the state as the files before have
  left it.
\<close>

fun process_files ::
  "(string \<times> regfile) list \<Rightarrow> nat \<times> nat \<times> state \<Rightarrow> error \<times> state + nat \<times> nat \<times> state" where
  "process_files [] v = Inr v"
| "process_files ((f, src) # fs) v =
     (case process_file src f v of
        Inl e \<Rightarrow> Inl (e, snd (snd v))
      | Inr v' \<Rightarrow> process_files fs v')"

definition copy_pdfs_to_main_folder :: "(string \<times> node) list option \<Rightarrow> state \<Rightarrow> state" where
  "copy_pdfs_to_main_folder source_folder s =
     (let s0 = log CopyingFiles s
      in case source_folder of
           None \<Rightarrow> log (ErrorCopying FileNotFoundError) s0
         | Some es \<Rightarrow>
             (let has_subfolders = list_ex is_dir es
              in (case process_files (if has_subfolders then walk es else files es) (0, 0, s0) of
                    Inl (e, s1) \<Rightarrow> log (ErrorCopying e) s1
                  | Inr (pdf_count, other_count, s1) \<Rightarrow>
                      log (NonPdfsMoved other_count) (log (PdfsCopied pdf_count) s1))))"

section \<open>Extraction: \<open>extract_texts\<close>\<close>

text \<open>
  What the run takes from outside the repository: the Unicode case mappings, the two
  text extractors (the page texts of a PDF, or \<open>None\<close> when the library raises), and the
  clock (\<open>datetime.now()\<close>, and the time stamp a written file gets).
\<close>

datatype month = Jan | Feb | Mar | Apr | May | Jun | Jul | Aug | Sep | Oct | Nov | Dec

record datetime =
  year :: nat
  month :: month
  day :: nat
  hour :: nat
  minute :: nat
  second :: nat

record env =
  ucd :: "str \<Rightarrow> str"
  pdfplumber :: "regfile \<Rightarrow> str list option"
  ocr :: "regfile \<Rightarrow> str list option"
  now :: datetime
  clock :: nat

definition strip :: "str \<Rightarrow> str" where
  "strip t = rev (dropWhile isspace (rev (dropWhile isspace t)))"

definition try_pdfplumber :: "env \<Rightarrow> regfile \<Rightarrow> str option" where
  "try_pdfplumber env f =
     (case pdfplumber env f of
        None \<Rightarrow> None
      | Some pages \<Rightarrow> (let t = strip (concat pages) in if 30 \<le> length t then Some t else None))"

definition try_ocr :: "env \<Rightarrow> regfile \<Rightarrow> str option" where
  "try_ocr env f =
     (case ocr env f of
        None \<Rightarrow> None
      | Some pages \<Rightarrow> (let t = concat (map strip pages) in if 30 \<le> length t then Some t else None))"

definition extract_text_from_pdf :: "env \<Rightarrow> regfile option \<Rightarrow> str \<times> extractor option" where
  "extract_text_from_pdf env pdf =
     (case pdf of
        None \<Rightarrow> ([], None)
      | Some f \<Rightarrow>
          (case try_pdfplumber env f of
             Some t \<Rightarrow> (t, Some Pdfplumber)
           | None \<Rightarrow> (case try_ocr env f of Some t \<Rightarrow> (t, Some Ocr) | None \<Rightarrow> ([], None))))"

text \<open>
  \<open>with open(txt_path, 'w', encoding='utf-8') as file: file.write(text)\<close>: opening
  creates or empties the file; when the text cannot be encoded the write raises and the
  empty file stays.
\<close>

definition write_text :: "nat \<Rightarrow> path \<Rightarrow> string \<Rightarrow> str \<Rightarrow> state \<Rightarrow> error option \<times> state" where
  "write_text t d n txt s =
     (case dirs s d of
        None \<Rightarrow> (Some FileNotFoundError, s)
      | Some es \<Rightarrow>
          (case encode_utf8 txt of
             Inl e \<Rightarrow>
               (Some e, s\<lparr>dirs := (dirs s)(d \<mapsto> AList.update n
                  \<lparr>content = [], readable = True, st_size = 0, st_mtime = t\<rparr> es)\<rparr>)
           | Inr bs \<Rightarrow>
               (None, s\<lparr>dirs := (dirs s)(d \<mapsto> AList.update n
                  \<lparr>content = txt, readable = True, st_size = length bs, st_mtime = t\<rparr> es)\<rparr>)))"

definition extract_file :: "env \<Rightarrow> string \<Rightarrow> nat \<times> nat \<times> state \<Rightarrow> nat \<times> nat \<times> state" where
  "extract_file env f v =
     (case v of (count_extracted, count_exception, s) \<Rightarrow>
        if endswith (lower_name f) ''.pdf'' then
          (case extract_text_from_pdf env (lookup s MAIN_PDF_FOLDER f) of
             (txt, mthd) \<Rightarrow>
               if txt \<noteq> [] then
                 (case write_text (clock env) EXTRACTED_TEXT_FOLDER (fst (splitext f) @ ''.txt'') txt s of
                    (None, s') \<Rightarrow> (count_extracted + 1, count_exception, log (ExtractedText f mthd) s')
                  | (Some e, s') \<Rightarrow> (count_extracted, count_exception, log (FailedSaveText f e) s'))
               else
                 (case move MAIN_PDF_FOLDER f EXCEPTION_FOLDER f s of
                    Inr s' \<Rightarrow> (count_extracted, count_exception + 1, log (ExtractionFailedMoved f) s')
                  | Inl e \<Rightarrow> (count_extracted, count_exception, log (FailedMoveToException f e) s)))
        else v)"

fun extract_files :: "env \<Rightarrow> string list \<Rightarrow> nat \<times> nat \<times> state \<Rightarrow> nat \<times> nat \<times> state" where
  "extract_files env [] v = v"
| "extract_files env (f # fs) v = extract_files env fs (extract_file env f v)"

definition extract_texts :: "env \<Rightarrow> state \<Rightarrow> error + state" where
  "extract_texts env s =
     (let s0 = log StartingExtraction s
      in case listdir s0 MAIN_PDF_FOLDER of
           Inl e \<Rightarrow> Inl e
         | Inr fs \<Rightarrow>
             (case extract_files env fs (0, 0, s0) of
                (count_extracted, count_exception, s1) \<Rightarrow>
                  Inr (log (ExtractionDone count_extracted count_exception) s1)))"

section \<open>Local deduplication: \<open>deduplicate_text_files\<close>\<close>

text \<open>
  The body of the loop, with its handler: whatever raises inside is logged and the loop
  goes on with the next file. The loop's variables are \<open>seen_hashes\<close> (a dictionary from
  the hash to the first file that had it), \<open>removed_count\<close> and the file system.
\<close>

definition dedup_file ::
  "env \<Rightarrow> string \<Rightarrow> (string \<rightharpoonup> string) \<times> nat \<times> state \<Rightarrow> (string \<rightharpoonup> string) \<times> nat \<times> state" where
  "dedup_file env f v =
     (case v of (seen_hashes, removed_count, s) \<Rightarrow>
        (case read_text s EXTRACTED_TEXT_FOLDER f of
           Inl e \<Rightarrow> (seen_hashes, removed_count, log (ErrorDeduplication f e) s)
         | Inr txt \<Rightarrow>
             (case sha256_hash (ucd env) txt of
                Inl e \<Rightarrow> (seen_hashes, removed_count, log (ErrorDeduplication f e) s)
              | Inr h \<Rightarrow>
                  (case seen_hashes h of
                     Some first \<Rightarrow>
                       (case remove EXTRACTED_TEXT_FOLDER f s of
                          Inl e \<Rightarrow> (seen_hashes, removed_count, log (ErrorDeduplication f e) s)
                        | Inr s1 \<Rightarrow>
                            (let s2 = log (RemovedDuplicateText f first) s1;
                                 pdf_name = fst (splitext f) @ ''.pdf''
                             in if path_exists s2 MAIN_PDF_FOLDER pdf_name then
                                  (case move MAIN_PDF_FOLDER pdf_name DUPLICATES_INVOICES_FOLDER pdf_name s2 of
                                     Inl e \<Rightarrow> (seen_hashes, removed_count + 1, log (ErrorDeduplication f e) s2)
                                   | Inr s3 \<Rightarrow> (seen_hashes, removed_count + 1, log (MovedDuplicatePdf pdf_name) s3))
                                else (seen_hashes, removed_count + 1, s2)))
                   | None \<Rightarrow> (seen_hashes(h \<mapsto> f), removed_count, s)))))"

fun dedup_files ::
  "env \<Rightarrow> string list \<Rightarrow> (string \<rightharpoonup> string) \<times> nat \<times> state \<Rightarrow> (string \<rightharpoonup> string) \<times> nat \<times> state" where
  "dedup_files env [] v = v"
| "dedup_files env (f # fs) v = dedup_files env fs (dedup_file env f v)"

definition deduplicate_text_files :: "env \<Rightarrow> state \<Rightarrow> error + state" where
  "deduplicate_text_files env s =
     (let s0 = log StartingDeduplication s
      in case listdir s0 EXTRACTED_TEXT_FOLDER of
           Inl e \<Rightarrow> Inl e
         | Inr names \<Rightarrow>
             (case dedup_files env (filter (\<lambda>f. endswith (lower_name f) ''.txt'') names) (Map.empty, 0, s0) of
                (seen_hashes, removed_count, s1) \<Rightarrow> Inr (log (DeduplicationDone removed_count) s1)))"

section \<open>Comparison with the repository: \<open>cross_compare_with_repository\<close>\<close>

text \<open>
  The first loop: the hashes of the repository's text files, collected in the set
  \<open>repo_hashes\<close>; a file that cannot be read is logged and left out.
\<close>

definition read_repo_file ::
  "env \<Rightarrow> string \<Rightarrow> string \<Rightarrow> string set \<times> state \<Rightarrow> string set \<times> state" where
  "read_repo_file env repository_folder f v =
     (case v of (repo_hashes, s) \<Rightarrow>
        if endswith (lower_name f) ''.txt'' then
          (case read_text s (Folder repository_folder) f of
             Inl e \<Rightarrow> (repo_hashes, log (CouldNotReadRepoFile f e) s)
           | Inr txt \<Rightarrow>
               (case sha256_hash (ucd env) txt of
                  Inl e \<Rightarrow> (repo_hashes, log (CouldNotReadRepoFile f e) s)
                | Inr h \<Rightarrow> (insert h repo_hashes, s)))
        else v)"

fun read_repo_files ::
  "env \<Rightarrow> string \<Rightarrow> string list \<Rightarrow> string set \<times> state \<Rightarrow> string set \<times> state" where
  "read_repo_files env repository_folder [] v = v"
| "read_repo_files env repository_folder (f # fs) v =
     read_repo_files env repository_folder fs (read_repo_file env repository_folder f v)"

text \<open>
  The second loop, over the extracted texts, with its handler. \<open>repo_hashes\<close> is read
  only; the loop's variables are \<open>count_unique\<close>, \<open>count_duplicates\<close> and the file
  system.
\<close>

definition compare_file ::
  "env \<Rightarrow> string set \<Rightarrow> string \<Rightarrow> nat \<times> nat \<times> state \<Rightarrow> nat \<times> nat \<times> state" where
  "compare_file env repo_hashes f v =
     (case v of (count_unique, count_duplicates, s) \<Rightarrow>
        (case read_text s EXTRACTED_TEXT_FOLDER f of
           Inl e \<Rightarrow> (count_unique, count_duplicates, log (ErrorComparing f e) s)
         | Inr txt \<Rightarrow>
             (case sha256_hash (ucd env) txt of
                Inl e \<Rightarrow> (count_unique, count_duplicates, log (ErrorComparing f e) s)
              | Inr h \<Rightarrow>
                  (let pdf_name = fst (splitext f) @ ''.pdf''
                   in if h \<in> repo_hashes then
                        (case (if path_exists s MAIN_PDF_FOLDER pdf_name
                               then move MAIN_PDF_FOLDER pdf_name DUPLICATES_INVOICES_FOLDER pdf_name s
                               else Inr s) of
                           Inl e \<Rightarrow> (count_unique, count_duplicates, log (ErrorComparing f e) s)
                         | Inr s1 \<Rightarrow>
                             (case remove EXTRACTED_TEXT_FOLDER f s1 of
                                Inl e \<Rightarrow> (count_unique, count_duplicates, log (ErrorComparing f e) s1)
                              | Inr s2 \<Rightarrow>
                                  (count_unique, count_duplicates + 1,
                                   log (MovedDuplicateDeletedText pdf_name) s2)))
                      else if path_exists s MAIN_PDF_FOLDER pdf_name then
                        (case move MAIN_PDF_FOLDER pdf_name UNIQUE_INVOICES_FOLDER pdf_name s of
                           Inl e \<Rightarrow> (count_unique, count_duplicates, log (ErrorComparing f e) s)
                         | Inr s1 \<Rightarrow>
                             (count_unique + 1, count_duplicates, log (MovedUniquePdf pdf_name) s1))
                      else v))))"

fun compare_files ::
  "env \<Rightarrow> string set \<Rightarrow> string list \<Rightarrow> nat \<times> nat \<times> state \<Rightarrow> nat \<times> nat \<times> state" where
  "compare_files env repo_hashes [] v = v"
| "compare_files env repo_hashes (f # fs) v =
     compare_files env repo_hashes fs (compare_file env repo_hashes f v)"

text \<open>The third loop: the PDFs of the Exception folder are copied to the Unique folder.\<close>

definition copy_exception :: "string \<Rightarrow> state \<Rightarrow> state" where
  "copy_exception f s =
     (if endswith (lower_name f) ''.pdf'' then
        (case copy2 (lookup s EXCEPTION_FOLDER f) UNIQUE_INVOICES_FOLDER f s of
           Inr s' \<Rightarrow> log (CopiedExceptionPdf f) s'
         | Inl e \<Rightarrow> log (CouldNotCopyExceptionPdf f e) s)
      else s)"

fun copy_exceptions :: "string list \<Rightarrow> state \<Rightarrow> state" where
  "copy_exceptions [] s = s"
| "copy_exceptions (f # fs) s = copy_exceptions fs (copy_exception f s)"

definition cross_compare_with_repository :: "env \<Rightarrow> string \<Rightarrow> state \<Rightarrow> error + state" where
  "cross_compare_with_repository env repository_folder s =
     (let s0 = log (CrossComparing repository_folder) s
      in case listdir s0 (Folder repository_folder) of
           Inl e \<Rightarrow> Inl e
         | Inr repo_names \<Rightarrow>
             (case read_repo_files env repository_folder repo_names ({}, s0) of
                (repo_hashes, s1) \<Rightarrow>
                  (case listdir s1 EXTRACTED_TEXT_FOLDER of
                     Inl e \<Rightarrow> Inl e
                   | Inr names \<Rightarrow>
                       (case compare_files env repo_hashes
                               (filter (\<lambda>f. endswith (lower_name f) ''.txt'') names) (0, 0, s1) of
                          (count_unique, count_duplicates, s2) \<Rightarrow>
                            (case listdir s2 EXCEPTION_FOLDER of
                               Inl e \<Rightarrow> Inl e
                             | Inr exception_names \<Rightarrow>
                                 Inr (log (CrossComparisonComplete count_unique count_duplicates)
                                        (copy_exceptions exception_names s2)))))))"

section \<open>Filing: \<open>update_repository\<close>\<close>

subsection \<open>\<open>str(int)\<close>, \<open>strftime\<close> and \<open>str.replace\<close>\<close>

definition digit :: "nat \<Rightarrow> char" where
  "digit n = ''0123456789'' ! n"

function str_nat :: "nat \<Rightarrow> string" where
  "str_nat n = (if n < 10 then [digit n] else str_nat (n div 10) @ [digit (n mod 10)])"
  by pat_completeness auto
termination
  by (relation "measure id") auto

declare str_nat.simps [simp del]

text \<open>Padding with zeros on the left, as \<open>%d\<close> or \<open>%H\<close> pad a number.\<close>

definition zfill :: "nat \<Rightarrow> string \<Rightarrow> string" where
  "zfill w s = replicate (w - length s) (CHR ''0'') @ s"

text \<open>
  \<open>s.replace(old, new)\<close>: every occurrence of \<open>old\<close>, from the left and without overlap;
  for an empty \<open>old\<close>, \<open>new\<close> goes before every character and to the end.
\<close>

function replace_from :: "string \<Rightarrow> string \<Rightarrow> string \<Rightarrow> string" where
  "replace_from s old new =
     (if s = [] then []
      else if old \<noteq> [] \<and> take (length old) s = old
        then new @ replace_from (drop (length old) s) old new
      else hd s # replace_from (tl s) old new)"
  by pat_completeness auto
termination
  by (relation "measure (\<lambda>(s, old, new). length s)") auto

declare replace_from.simps [simp del]

definition replace :: "string \<Rightarrow> string \<Rightarrow> string \<Rightarrow> string" where
  "replace s old new =
     (if old = [] then new @ concat (map (\<lambda>c. c # new) s) else replace_from s old new)"

text \<open>
  \<open>strftime\<close> with the directives the code uses: \<open>%d%m%Y\<close>, \<open>%H%M%S\<close> and \<open>%b_%y\<close>,
  the month's name as the C locale abbreviates it.
\<close>

definition month_number :: "month \<Rightarrow> nat" where
  "month_number m =
     (case m of Jan \<Rightarrow> 1 | Feb \<Rightarrow> 2 | Mar \<Rightarrow> 3 | Apr \<Rightarrow> 4 | May \<Rightarrow> 5 | Jun \<Rightarrow> 6
      | Jul \<Rightarrow> 7 | Aug \<Rightarrow> 8 | Sep \<Rightarrow> 9 | Oct \<Rightarrow> 10 | Nov \<Rightarrow> 11 | Dec \<Rightarrow> 12)"

definition month_abbr :: "month \<Rightarrow> string" where
  "month_abbr m =
     (case m of Jan \<Rightarrow> ''Jan'' | Feb \<Rightarrow> ''Feb'' | Mar \<Rightarrow> ''Mar'' | Apr \<Rightarrow> ''Apr''
      | May \<Rightarrow> ''May'' | Jun \<Rightarrow> ''Jun'' | Jul \<Rightarrow> ''Jul'' | Aug \<Rightarrow> ''Aug''
      | Sep \<Rightarrow> ''Sep'' | Oct \<Rightarrow> ''Oct'' | Nov \<Rightarrow> ''Nov'' | Dec \<Rightarrow> ''Dec'')"

definition strftime_dmY :: "datetime \<Rightarrow> string" where
  "strftime_dmY t =
     zfill 2 (str_nat (day t)) @ zfill 2 (str_nat (month_number (month t))) @
     zfill 4 (str_nat (year t))"

definition strftime_HMS :: "datetime \<Rightarrow> string" where
  "strftime_HMS t =
     zfill 2 (str_nat (hour t)) @ zfill 2 (str_nat (minute t)) @ zfill 2 (str_nat (second t))"

definition strftime_b_y :: "datetime \<Rightarrow> string" where
  "strftime_b_y t = month_abbr (month t) @ ''_'' @ zfill 2 (str_nat (year t mod 100))"

subsection \<open>The name in the repository\<close>

definition base_name :: "string \<Rightarrow> string \<Rightarrow> string \<Rightarrow> string" where
  "base_name date_str time_str month_year_str =
     ''INVC_'' @ date_str @ ''_'' @ time_str @ ''_'' @ month_year_str @ ''.txt''"

text \<open>The name the loop tries with the counter at \<open>count\<close>.\<close>

definition numbered :: "string \<Rightarrow> nat \<Rightarrow> string" where
  "numbered base count = replace base ''.txt'' (''_'' @ str_nat count @ ''.txt'')"

text \<open>
  The loop ends because the numbered names are pairwise different and the repository
  holds finitely many names.
\<close>

definition is_digit :: "char \<Rightarrow> bool" where
  "is_digit c \<longleftrightarrow> c \<in> set ''0123456789''"

lemma lt10_cases: "n < 10 \<Longrightarrow> n \<in> {0, 1, 2, 3, 4, 5, 6, 7, 8, 9::nat}"
  by auto

lemma is_digit_digit: "n < 10 \<Longrightarrow> is_digit (digit n)"
  using lt10_cases [of n] by (auto simp: is_digit_def digit_def)

lemma digit_inj: "n < 10 \<Longrightarrow> m < 10 \<Longrightarrow> digit n = digit m \<Longrightarrow> n = m"
  using lt10_cases [of n] lt10_cases [of m] by (auto simp: digit_def)

lemma str_nat_digits: "list_all is_digit (str_nat n)"
  by (induction n rule: str_nat.induct) (subst str_nat.simps, simp add: is_digit_digit)

lemma str_nat_not_Nil: "str_nat n \<noteq> []"
  by (subst str_nat.simps) simp

lemma str_nat_inj: "str_nat n = str_nat m \<Longrightarrow> n = m"
proof (induction n arbitrary: m rule: str_nat.induct)
  case (1 n)
  show ?case
  proof (cases "n < 10")
    case True
    show ?thesis
    proof (cases "m < 10")
      case m: True
      with True 1(2) show ?thesis
        by (simp add: str_nat.simps [of n] str_nat.simps [of m] digit_inj)
    next
      case False
      with True 1(2) str_nat_not_Nil [of "m div 10"] show ?thesis
        by (simp add: str_nat.simps [of n] str_nat.simps [of m])
    qed
  next
    case False
    show ?thesis
    proof (cases "m < 10")
      case True
      with False 1(2) str_nat_not_Nil [of "n div 10"] show ?thesis
        by (simp add: str_nat.simps [of n] str_nat.simps [of m])
    next
      case m: False
      with False 1(2) have "str_nat (n div 10) = str_nat (m div 10)" "digit (n mod 10) = digit (m mod 10)"
        by (simp_all add: str_nat.simps [of n] str_nat.simps [of m])
      with 1(1) [OF False] have "n div 10 = m div 10" "n mod 10 = m mod 10"
        by (auto intro: digit_inj)
      then show ?thesis by (metis div_mult_mod_eq)
    qed
  qed
qed

lemma replace_from_first:
  "old \<noteq> [] \<Longrightarrow> \<exists>p' q'. \<forall>new. replace_from (p @ old @ q) old new = p' @ new @ replace_from q' old new"
proof (induction p)
  case Nil
  have "replace_from (old @ q) old new = new @ replace_from q old new" for new
    using Nil by (subst replace_from.simps) simp
  then show ?case by (intro exI [of _ "[]"] exI [of _ q]) simp
next
  case (Cons c p)
  from Cons obtain p' q' where IH: "\<forall>new. replace_from (p @ old @ q) old new = p' @ new @ replace_from q' old new"
    by blast
  show ?case
  proof (cases "take (length old) ((c # p) @ old @ q) = old")
    case True
    have "replace_from ((c # p) @ old @ q) old new = new @ replace_from (drop (length old) ((c # p) @ old @ q)) old new" for new
      using True Cons(2) by (subst replace_from.simps) simp
    then show ?thesis
      by (intro exI [of _ "[]"] exI [of _ "drop (length old) ((c # p) @ old @ q)"]) simp
  next
    case False
    have "replace_from ((c # p) @ old @ q) old new = c # replace_from (p @ old @ q) old new" for new
      using False by (subst replace_from.simps) simp
    with IH show ?thesis
      by (intro exI [of _ "c # p'"] exI [of _ q']) simp
  qed
qed

lemma takeWhile_digits: "list_all is_digit ds \<Longrightarrow> \<not> is_digit c \<Longrightarrow> takeWhile is_digit (ds @ c # r) = ds"
  by (induction ds) simp_all

lemma numbered_inj:
  assumes "numbered (stem @ ''.txt'') k = numbered (stem @ ''.txt'') k'"
  shows "k = k'"
proof -
  obtain p' q' where
    f: "\<And>new. replace_from (stem @ ''.txt'' @ []) ''.txt'' new = p' @ new @ replace_from q' ''.txt'' new"
    using replace_from_first [of "''.txt''" stem "[]"] by auto
  have nd: "\<not> is_digit (CHR ''.'')" by (simp add: is_digit_def)
  have "numbered (stem @ ''.txt'') j = p' @ ''_'' @ str_nat j @ CHR ''.'' # (''txt'' @ replace_from q' ''.txt'' (''_'' @ str_nat j @ ''.txt''))" for j
    using f [of "''_'' @ str_nat j @ ''.txt''"] by (simp add: numbered_def replace_def)
  with assms have "str_nat k @ CHR ''.'' # (''txt'' @ replace_from q' ''.txt'' (''_'' @ str_nat k @ ''.txt''))
      = str_nat k' @ CHR ''.'' # (''txt'' @ replace_from q' ''.txt'' (''_'' @ str_nat k' @ ''.txt''))"
    by simp
  then have "takeWhile is_digit (str_nat k @ CHR ''.'' # (''txt'' @ replace_from q' ''.txt'' (''_'' @ str_nat k @ ''.txt'')))
      = takeWhile is_digit (str_nat k' @ CHR ''.'' # (''txt'' @ replace_from q' ''.txt'' (''_'' @ str_nat k' @ ''.txt'')))"
    by simp
  then have "str_nat k = str_nat k'"
    by (simp only: takeWhile_digits [OF str_nat_digits nd])
  then show ?thesis by (rule str_nat_inj)
qed

lemma finite_numbered: "finite {k. numbered (stem @ ''.txt'') k \<in> set ns}"
proof -
  have "inj (numbered (stem @ ''.txt''))"
    by (rule injI) (rule numbered_inj)
  then have "finite (numbered (stem @ ''.txt'') -` set ns)"
    by (intro finite_vimageI) simp_all
  then show ?thesis by (simp add: vimage_def)
qed

text \<open>
  \<^verbatim>\<open>while os.path.exists(os.path.join(repository_folder, new_name)):\<close>
  \<^verbatim>\<open>    new_name = base_name.replace(".txt", f"_{count}.txt"); count += 1\<close>
\<close>

function resolve_name ::
  "string \<Rightarrow> string \<Rightarrow> string \<Rightarrow> state \<Rightarrow> string \<Rightarrow> string \<Rightarrow> nat \<Rightarrow> string" where
  "resolve_name date_str time_str month_year_str s repository_folder new_name count =
     (if path_exists s (Folder repository_folder) new_name
      then resolve_name date_str time_str month_year_str s repository_folder
             (replace (base_name date_str time_str month_year_str) ''.txt''
                (''_'' @ str_nat count @ ''.txt''))
             (count + 1)
      else new_name)"
  by pat_completeness auto
termination
proof (relation "measure (\<lambda>(d, t, m, s, r, new_name, count).
          card {k. count \<le> k \<and> path_exists s (Folder r) (numbered (base_name d t m) k)} +
          (if path_exists s (Folder r) new_name then 1 else 0))", goal_cases)
  case 1
  show ?case by simp
next
  case (2 d t m s r new_name count)
  let ?P = "\<lambda>k. path_exists s (Folder r) (numbered (base_name d t m) k)"
  obtain ns where ns: "\<And>n. path_exists s (Folder r) n \<longleftrightarrow> n \<in> set ns"
  proof (cases "dirs s (Folder r)")
    case None
    then have "path_exists s (Folder r) n \<longleftrightarrow> n \<in> set []" for n
      by (simp add: path_exists_def lookup_def)
    then show ?thesis by (rule that)
  next
    case (Some es)
    then have "path_exists s (Folder r) n \<longleftrightarrow> n \<in> set (map fst es)" for n
      by (auto simp: path_exists_def lookup_def map_of_eq_None_iff)
    then show ?thesis by (rule that)
  qed
  have b: "base_name d t m = (''INVC_'' @ d @ ''_'' @ t @ ''_'' @ m) @ ''.txt''"
    by (simp add: base_name_def)
  have fin: "finite {k. ?P k}"
    unfolding ns b by (rule finite_numbered)
  have split: "{k. count \<le> k \<and> ?P k} = {k. count + 1 \<le> k \<and> ?P k} \<union> (if ?P count then {count} else {})"
  proof -
    have "count \<le> k \<longleftrightarrow> k = count \<or> count + 1 \<le> k" for k by auto
    then show ?thesis by (auto split: if_splits)
  qed
  have "card {k. count \<le> k \<and> ?P k} = card {k. count + 1 \<le> k \<and> ?P k} + (if ?P count then 1 else 0)"
  proof (cases "?P count")
    case True
    have "card (insert count {k. count + 1 \<le> k \<and> ?P k}) = Suc (card {k. count + 1 \<le> k \<and> ?P k})"
      using fin by (intro card_insert_disjoint) (auto intro: finite_subset [OF _ fin])
    with True split show ?thesis by simp
  next
    case False
    with split show ?thesis by simp
  qed
  with 2 show ?case by (simp add: numbered_def)
qed

declare resolve_name.simps [simp del]

subsection \<open>The loop over the extracted texts\<close>

definition update_file ::
  "string \<Rightarrow> string \<Rightarrow> string \<Rightarrow> string \<Rightarrow> string \<Rightarrow> nat \<times> state \<Rightarrow> nat \<times> state" where
  "update_file date_str time_str month_year_str repository_folder f v =
     (case v of (moved_count, s) \<Rightarrow>
        if endswith (lower_name f) ''.txt'' then
          (let new_name =
                 resolve_name date_str time_str month_year_str s repository_folder
                   (base_name date_str time_str month_year_str) 1
           in (case move EXTRACTED_TEXT_FOLDER f (Folder repository_folder) new_name s of
                 Inr s' \<Rightarrow> (moved_count + 1, log (MovedRenamed f new_name) s')
               | Inl e \<Rightarrow> (moved_count, log (FailedMoveRename f e) s)))
        else v)"

fun update_files ::
  "string \<Rightarrow> string \<Rightarrow> string \<Rightarrow> string \<Rightarrow> string list \<Rightarrow> nat \<times> state \<Rightarrow> nat \<times> state" where
  "update_files date_str time_str month_year_str repository_folder [] v = v"
| "update_files date_str time_str month_year_str repository_folder (f # fs) v =
     update_files date_str time_str month_year_str repository_folder fs
       (update_file date_str time_str month_year_str repository_folder f v)"

definition update_repository :: "env \<Rightarrow> string \<Rightarrow> state \<Rightarrow> error + state" where
  "update_repository env repository_folder s =
     (let s0 = log (UpdatingRepository repository_folder) s;
          date_str = strftime_dmY (now env);
          time_str = strftime_HMS (now env);
          month_year_str = strftime_b_y (now env)
      in case listdir s0 EXTRACTED_TEXT_FOLDER of
           Inl e \<Rightarrow> Inl e
         | Inr names \<Rightarrow>
             (case update_files date_str time_str month_year_str repository_folder names (0, s0) of
                (moved_count, s1) \<Rightarrow> Inr (log (MovedRenamedCount moved_count) s1)))"

section \<open>\<open>cleanup_main_pdf_folder\<close>\<close>

definition cleanup_file :: "string \<Rightarrow> state \<Rightarrow> state" where
  "cleanup_file f s =
     (case move MAIN_PDF_FOLDER f EXCEPTION_FOLDER f s of
        Inr s' \<Rightarrow> log (MovedLeftoverPdf f) s'
      | Inl e \<Rightarrow> log (FailedMoveLeftover f e) s)"

fun cleanup_files :: "string list \<Rightarrow> state \<Rightarrow> state" where
  "cleanup_files [] s = s"
| "cleanup_files (f # fs) s = cleanup_files fs (cleanup_file f s)"

definition cleanup_main_pdf_folder :: "state \<Rightarrow> error + state" where
  "cleanup_main_pdf_folder s =
     (case listdir s MAIN_PDF_FOLDER of
        Inl e \<Rightarrow> Inl e
      | Inr names \<Rightarrow>
          (let leftover_files = filter (\<lambda>f. endswith (lower_name f) ''.pdf'') names
           in if leftover_files = [] then Inr (log NoLeftoverPdfs s)
              else Inr (cleanup_files leftover_files (log CleaningLeftover s))))"

section \<open>The inventory: \<open>list_files_as_dataframe\<close>\<close>

text \<open>
  A row of the data frame: \<open>Filename\<close>, \<open>Size_Bytes\<close> and \<open>Modified_Time\<close> (the time
  stamp; its rendering in local time is left out). The function is given a path: here,
  the directory found there, or \<open>None\<close> when there is none.
\<close>

type_synonym row = "string \<times> nat \<times> nat"

fun rows :: "(string \<times> node) list \<Rightarrow> row list" where
  "rows [] = []"
| "rows ((f, File info) # es) = (f, st_size info, st_mtime info) # rows es"
| "rows ((f, Dir sub) # es) = rows es"

text \<open>The command-line program's function (\<open>DF_Final.py\<close>): \<open>os.listdir\<close> comes first.\<close>

definition list_files_as_dataframe :: "(string \<times> node) list option \<Rightarrow> error + row list" where
  "list_files_as_dataframe folder_path =
     (case folder_path of None \<Rightarrow> Inl FileNotFoundError | Some es \<Rightarrow> Inr (rows es))"

text \<open>
  The method of \<open>InvoicePipeline\<close> (\<open>PyQt_Final.py\<close>): it returns the empty frame when
  \<open>os.path.exists(folder_path)\<close> is false.
\<close>

definition InvoicePipeline_list_files_as_dataframe ::
  "(string \<times> node) list option \<Rightarrow> error + row list" where
  "InvoicePipeline_list_files_as_dataframe folder_path =
     (if folder_path = None then Inr []
      else (case folder_path of None \<Rightarrow> Inl FileNotFoundError | Some es \<Rightarrow> Inr (rows es)))"

text \<open>A bucket as the directory the inventory is given.\<close>

definition bucket :: "state \<Rightarrow> path \<Rightarrow> (string \<times> node) list option" where
  "bucket s d = map_option (map (\<lambda>(f, info). (f, File info))) (dirs s d)"

definition get_duplicate_invoices_dataframe :: "state \<Rightarrow> error + row list" where
  "get_duplicate_invoices_dataframe s = list_files_as_dataframe (bucket s DUPLICATES_INVOICES_FOLDER)"

definition get_unique_invoices_dataframe :: "state \<Rightarrow> error + row list" where
  "get_unique_invoices_dataframe s = list_files_as_dataframe (bucket s UNIQUE_INVOICES_FOLDER)"

section \<open>The run: \<open>main\<close>\<close>

text \<open>
  The stages in their order. An exception that no handler of a stage catches ends the
  run (\<open>Inl\<close>). The two data frames that \<open>main\<close> prints at the end change nothing.
\<close>

definition main :: "env \<Rightarrow> (string \<times> node) list option \<Rightarrow> string \<Rightarrow> state \<Rightarrow> error + state" where
  "main env source_folder repository_folder s =
     (let s1 = copy_pdfs_to_main_folder source_folder (ensure_folders (log Version s))
      in case extract_texts env s1 of
           Inl e \<Rightarrow> Inl e
         | Inr s2 \<Rightarrow>
             (case deduplicate_text_files env s2 of
                Inl e \<Rightarrow> Inl e
              | Inr s3 \<Rightarrow>
                  (case cross_compare_with_repository env repository_folder s3 of
                     Inl e \<Rightarrow> Inl e
                   | Inr s4 \<Rightarrow>
                       (case update_repository env repository_folder s4 of
                          Inl e \<Rightarrow> Inl e
                        | Inr s5 \<Rightarrow>
                            (case cleanup_main_pdf_folder s5 of
                               Inl e \<Rightarrow> Inl e
                             | Inr s6 \<Rightarrow> Inr (log AllTasksCompleted s6))))))"

section \<open>Properties of the fingerprint\<close>

text \<open>
  The fingerprint as the specification words it: lower-case the text, delete every
  whitespace character, encode as UTF-8, hash, print in hexadecimal.
\<close>

definition normalized_spec :: "(str \<Rightarrow> str) \<Rightarrow> str \<Rightarrow> str" where
  "normalized_spec u t = filter (\<lambda>c. \<not> isspace c) (lower u t)"

definition fingerprint_spec :: "(str \<Rightarrow> str) \<Rightarrow> str \<Rightarrow> error + string" where
  "fingerprint_spec u t =
     (case encode_utf8 (normalized_spec u t) of
        Inl e \<Rightarrow> Inl e
      | Inr bs \<Rightarrow> Inr (hexdigest (sha256 bs)))"

text \<open>The code points that UTF-8 can encode: all but the surrogates.\<close>

definition encodable :: "nat \<Rightarrow> bool" where
  "encodable c \<longleftrightarrow> c < 55296 \<or> (57343 < c \<and> c < 1114112)"

lemma concat_split: "concat (split s) = filter (\<lambda>c. \<not> isspace c) s"
proof (induction s rule: split.induct)
  case (1 s)
  show ?case
  proof (cases "dropWhile isspace s")
    case Nil
    then have "\<forall>x\<in>set s. isspace x" by (simp add: dropWhile_eq_Nil_conv)
    then have "filter (\<lambda>c. \<not> isspace c) s = []" by (simp add: filter_empty_conv)
    moreover have "split s = []"
      by (subst split.simps) (simp only: Nil list.case)
    ultimately show ?thesis by simp
  next
    case (Cons c cs)
    let ?w = "c # cs"
    let ?word = "takeWhile (\<lambda>x. \<not> isspace x) ?w"
    let ?rest = "dropWhile (\<lambda>x. \<not> isspace x) ?w"
    have s: "s = takeWhile isspace s @ ?w"
      using Cons takeWhile_dropWhile_id [of isspace s] by simp
    have "filter (\<lambda>c. \<not> isspace c) (takeWhile isspace s) = []"
      by (auto simp: filter_empty_conv dest: set_takeWhileD)
    then have f1: "filter (\<lambda>c. \<not> isspace c) s = filter (\<lambda>c. \<not> isspace c) ?w"
      by (subst s) simp
    have "filter (\<lambda>c. \<not> isspace c) ?word = ?word"
      by (auto simp: filter_id_conv dest: set_takeWhileD)
    then have f2: "filter (\<lambda>c. \<not> isspace c) ?w = ?word @ filter (\<lambda>c. \<not> isspace c) ?rest"
      by (metis filter_append takeWhile_dropWhile_id)
    have "split s = ?word # split ?rest"
      by (subst split.simps) (simp only: Cons list.case)
    then have "concat (split s) = ?word @ concat (split ?rest)"
      by simp
    also have "\<dots> = ?word @ filter (\<lambda>c. \<not> isspace c) ?rest"
      using 1 [OF Cons] by simp
    finally show ?thesis using f1 f2 by simp
  qed
qed

lemma join_empty: "join [] ws = concat ws"
proof -
  have "map ((@) []) xs = xs" for xs :: "str list"
    by (induction xs) simp_all
  then show ?thesis by (cases ws) (simp_all add: join_def)
qed

lemma sha256_hash_eq:
  "sha256_hash u t =
     (case encode_utf8 (normalized_spec u t) of
        Inl e \<Rightarrow> Inl e
      | Inr bs \<Rightarrow> Inr (hexdigest (sha256 bs)))"
  by (simp add: sha256_hash_def normalized_spec_def join_empty concat_split)

lemma length_round: "length (round s kw) = 8"
  by (simp add: round_def mix_def)

lemma length_rounds: "length s = 8 \<Longrightarrow> length (rounds s kws) = 8"
  unfolding rounds_def by (induction kws arbitrary: s) (simp_all add: length_round)

lemma length_compress: "length h = 8 \<Longrightarrow> length (compress h b) = 8"
  by (simp add: compress_def length_rounds)

lemma length_blocks: "length h = 8 \<Longrightarrow> length (blocks n h bs) = 8"
  by (induction n arbitrary: h bs) (simp_all add: length_compress)

lemma length_sha256: "length (sha256 m) = 8"
  by (simp add: sha256_def Let_def length_blocks H0_def)

lemma length_hex32: "length (hex32 w) = 8"
  by (simp add: hex32_def)

lemma length_concat_const: "\<forall>x\<in>set xs. length x = k \<Longrightarrow> length (concat xs) = k * length xs"
  by (induction xs) simp_all

lemma length_hexdigest: "length (hexdigest (sha256 m)) = 64"
  by (simp add: hexdigest_def length_concat_const [where k = 8] length_hex32 length_sha256)

lemma encode_cp_encodable: "encodable c \<Longrightarrow> \<exists>bs. encode_cp c = Inr bs"
  by (auto simp: encodable_def encode_cp_def)

lemma encode_utf8_encodable: "list_all encodable t \<Longrightarrow> \<exists>bs. encode_utf8 t = Inr bs"
proof (induction t)
  case Nil
  show ?case by simp
next
  case (Cons c t)
  then obtain b r where "encode_cp c = Inr b" "encode_utf8 t = Inr r"
    using encode_cp_encodable [of c] by auto
  then show ?case by simp
qed

text \<open>
  C1. The fingerprint of the code is the fingerprint of the specification: the SHA-256
  digest, in hexadecimal, of the UTF-8 encoding of the lower-cased text without its
  whitespace (and the same exception when a surrogate cannot be encoded). A digest it
  returns has 64 characters, and it returns one whenever the normalized text can be
  encoded. Texts with the same normalized form have the same fingerprint, as
  \<open>"Invoice  #123"\<close> and \<open>"invoice#123"\<close> have.
\<close>

theorem sha256_hash_is_fingerprint:
  "sha256_hash u t = fingerprint_spec u t \<and>
   (\<forall>d. sha256_hash u t = Inr d \<longrightarrow> length d = 64) \<and>
   (list_all encodable (normalized_spec u t) \<longrightarrow> (\<exists>d. sha256_hash u t = Inr d)) \<and>
   (normalized_spec u t = normalized_spec u t' \<longrightarrow> sha256_hash u t = sha256_hash u t') \<and>
   sha256_hash u (ascii ''Invoice  #123'') = sha256_hash u (ascii ''invoice#123'')"
proof (intro conjI allI impI)
  show "sha256_hash u t = fingerprint_spec u t"
    by (simp add: sha256_hash_eq fingerprint_spec_def)
next
  fix d assume "sha256_hash u t = Inr d"
  then show "length d = 64"
    by (auto simp: sha256_hash_eq length_hexdigest split: sum.splits)
next
  assume "list_all encodable (normalized_spec u t)"
  then obtain bs where "encode_utf8 (normalized_spec u t) = Inr bs"
    using encode_utf8_encodable by blast
  then show "\<exists>d. sha256_hash u t = Inr d"
    by (simp add: sha256_hash_eq)
next
  assume "normalized_spec u t = normalized_spec u t'"
  then show "sha256_hash u t = sha256_hash u t'"
    by (simp add: sha256_hash_eq)
next
  have "normalized_spec u (ascii ''Invoice  #123'') = normalized_spec u (ascii ''invoice#123'')"
    by (simp add: normalized_spec_def lower_def ascii_def ascii_lower_def isspace_def)
  then show "sha256_hash u (ascii ''Invoice  #123'') = sha256_hash u (ascii ''invoice#123'')"
    by (simp add: sha256_hash_eq)
qed

theorem sha256_hash_is_fingerprint_witness:
  "(\<exists>d. sha256_hash (\<lambda>t. t) (ascii ''Invoice  #123'') = Inr d \<and> length d = 64) \<and>
   sha256_hash (\<lambda>t. t) (ascii ''Invoice  #123'') = sha256_hash (\<lambda>t. t) (ascii ''INVOICE #123 '') \<and>
   sha256_hash (\<lambda>t. t) (ascii ''Invoice  #123'') = fingerprint_spec (\<lambda>t. t) (ascii ''Invoice  #123'')"
proof -
  let ?t = "ascii ''Invoice  #123''" and ?t' = "ascii ''INVOICE #123 ''"
  note inst = sha256_hash_is_fingerprint [of "\<lambda>t. t" ?t ?t']
  have n: "normalized_spec (\<lambda>t. t) ?t = ascii ''invoice#123''"
    by (simp add: normalized_spec_def lower_def ascii_def ascii_lower_def isspace_def)
  have n': "normalized_spec (\<lambda>t. t) ?t' = ascii ''invoice#123''"
    by (simp add: normalized_spec_def lower_def ascii_def ascii_lower_def isspace_def)
  have "list_all encodable (normalized_spec (\<lambda>t. t) ?t)"
    by (simp add: n) (simp add: ascii_def encodable_def)
  with inst obtain d where d: "sha256_hash (\<lambda>t. t) ?t = Inr d" by blast
  with inst have l: "length d = 64" by blast
  have "normalized_spec (\<lambda>t. t) ?t = normalized_spec (\<lambda>t. t) ?t'"
    by (simp only: n n')
  with inst have e: "sha256_hash (\<lambda>t. t) ?t = sha256_hash (\<lambda>t. t) ?t'" by blast
  from inst have "sha256_hash (\<lambda>t. t) ?t = fingerprint_spec (\<lambda>t. t) ?t" by blast
  with d l e show ?thesis by blast
qed

section \<open>Basic facts about the file system\<close>

lemma messages_log [simp]: "messages (log m s) = messages s @ [m]"
  by (simp add: log_def)

lemma dirs_log [simp]: "dirs (log m s) = dirs s"
  by (simp add: log_def)

lemma lookup_log [simp]: "lookup (log m s) d n = lookup s d n"
  by (simp add: lookup_def)

lemma path_exists_log [simp]: "path_exists (log m s) d n = path_exists s d n"
  by (simp add: path_exists_def)

lemma listdir_log [simp]: "listdir (log m s) d = listdir s d"
  by (simp add: listdir_def)

lemma read_text_log [simp]: "read_text (log m s) d n = read_text s d n"
  by (simp add: read_text_def)

lemma remove_Inr:
  "remove d n s = Inr s' \<Longrightarrow>
     messages s' = messages s \<and> lookup s d n \<noteq> None \<and>
     (\<forall>d' n'. lookup s' d' n' = (if d' = d \<and> n' = n then None else lookup s d' n')) \<and>
     (\<forall>d'. dirs s' d' = None \<longleftrightarrow> dirs s d' = None) \<and>
     (\<forall>d'. d' \<noteq> d \<longrightarrow> dirs s' d' = dirs s d')"
  by (auto simp: remove_def lookup_def AList.delete_conv' split: option.splits if_splits)

lemma remove_Inl: "remove d n s = Inl e \<Longrightarrow> lookup s d n = None"
  by (auto simp: remove_def lookup_def split: option.splits if_splits)

lemma move_Inr:
  "move d n d' n' s = Inr s' \<Longrightarrow> d \<noteq> d' \<Longrightarrow>
     messages s' = messages s \<and>
     (\<forall>e m. lookup s' e m =
        (if e = d' \<and> m = n' then lookup s d n else if e = d \<and> m = n then None else lookup s e m)) \<and>
     lookup s d n \<noteq> None \<and>
     (\<forall>e. dirs s' e = None \<longleftrightarrow> dirs s e = None) \<and>
     (\<forall>e. e \<noteq> d \<longrightarrow> e \<noteq> d' \<longrightarrow> dirs s' e = dirs s e)"
  by (auto simp: move_def lookup_def AList.delete_conv' AList.update_conv' split: option.splits if_splits)


lemma move_ok:
  "lookup s d n = Some f \<Longrightarrow> dirs s d' \<noteq> None \<Longrightarrow> \<exists>s'. move d n d' n' s = Inr s'"
  by (auto simp: move_def lookup_def split: option.splits if_splits)

lemma copy2_Inr:
  "copy2 src d n s = Inr s' \<Longrightarrow>
     messages s' = messages s \<and>
     (\<exists>f. src = Some f \<and> readable f) \<and>
     (\<forall>e m. lookup s' e m = (if e = d \<and> m = n then src else lookup s e m)) \<and>
     (\<forall>e. dirs s' e = None \<longleftrightarrow> dirs s e = None) \<and>
     (\<forall>e. e \<noteq> d \<longrightarrow> dirs s' e = dirs s e)"
  by (auto simp: copy2_def lookup_def AList.update_conv' split: option.splits if_splits)

lemma copy2_ok:
  "readable f \<Longrightarrow> dirs s d \<noteq> None \<Longrightarrow> \<exists>s'. copy2 (Some f) d n s = Inr s'"
  by (auto simp: copy2_def split: option.splits)

lemma write_text_facts:
  "write_text t d n txt s = (r, s') \<Longrightarrow>
     messages s' = messages s \<and>
     (\<forall>e m. (e \<noteq> d \<or> m \<noteq> n) \<longrightarrow> lookup s' e m = lookup s e m) \<and>
     (\<forall>e. dirs s' e = None \<longleftrightarrow> dirs s e = None) \<and>
     (\<forall>e. e \<noteq> d \<longrightarrow> dirs s' e = dirs s e)"
  by (auto simp: write_text_def lookup_def AList.update_conv' split: option.splits sum.splits if_splits)

lemma rows_files: "rows es = map (\<lambda>(f, info). (f, st_size info, st_mtime info)) (files es)"
  by (induction es rule: files.induct) simp_all

text \<open>
  C8. Given a directory that does not exist, the command-line program's inventory raises
  (\<open>os.listdir\<close> is its first step), while the method of \<open>InvoicePipeline\<close> returns
  the empty listing. Given a directory that exists, both return one row (name, size,
  time) for every regular file directly in it, and none for a subdirectory.
\<close>

theorem list_files_as_dataframe_missing_folder:
  "list_files_as_dataframe None = Inl FileNotFoundError \<and>
   InvoicePipeline_list_files_as_dataframe None = Inr [] \<and>
   list_files_as_dataframe (Some es) = Inr (map (\<lambda>(f, info). (f, st_size info, st_mtime info)) (files es)) \<and>
   InvoicePipeline_list_files_as_dataframe (Some es) = list_files_as_dataframe (Some es)"
  by (simp add: list_files_as_dataframe_def InvoicePipeline_list_files_as_dataframe_def rows_files)

lemma read_text_Inr: "read_text s d n = Inr txt \<Longrightarrow> \<exists>f. lookup s d n = Some f \<and> readable f \<and> content f = txt"
  by (auto simp: read_text_def split: option.splits if_splits)

lemma remove_ok: "lookup s d n = Some f \<Longrightarrow> \<exists>s'. remove d n s = Inr s'"
  by (auto simp: remove_def lookup_def split: option.splits)

text \<open>
  C9. A text whose hash has been seen before, and whose PDF is not in the staging folder:
  the text is deleted, no other directory changes (no PDF is moved), the one line logged
  is the removal (no error), and the loop goes on with the files that follow.
\<close>

theorem dedup_file_duplicate_pdf_absent:
  assumes "read_text s EXTRACTED_TEXT_FOLDER f = Inr txt"
    and "sha256_hash (ucd env) txt = Inr h"
    and "seen_hashes h = Some first"
    and "\<not> path_exists s MAIN_PDF_FOLDER (fst (splitext f) @ ''.pdf'')"
  shows "\<exists>s'. dedup_file env f (seen_hashes, removed_count, s) = (seen_hashes, removed_count + 1, s') \<and>
           lookup s' EXTRACTED_TEXT_FOLDER f = None \<and>
           (\<forall>d. d \<noteq> EXTRACTED_TEXT_FOLDER \<longrightarrow> dirs s' d = dirs s d) \<and>
           messages s' = messages s @ [RemovedDuplicateText f first] \<and>
           dedup_files env (f # fs) (seen_hashes, removed_count, s) =
             dedup_files env fs (seen_hashes, removed_count + 1, s')"
proof -
  from assms(1) obtain info where "lookup s EXTRACTED_TEXT_FOLDER f = Some info"
    using read_text_Inr by blast
  then obtain s1 where s1: "remove EXTRACTED_TEXT_FOLDER f s = Inr s1"
    using remove_ok by blast
  note r = remove_Inr [OF s1]
  have "\<not> path_exists (log (RemovedDuplicateText f first) s1) MAIN_PDF_FOLDER (fst (splitext f) @ ''.pdf'')"
    using assms(4) r by (simp add: path_exists_def)
  then have "dedup_file env f (seen_hashes, removed_count, s) =
      (seen_hashes, removed_count + 1, log (RemovedDuplicateText f first) s1)"
    using assms(1-3) s1 by (simp add: dedup_file_def Let_def)
  moreover have "lookup (log (RemovedDuplicateText f first) s1) EXTRACTED_TEXT_FOLDER f = None"
    using r by simp
  moreover have "\<forall>d. d \<noteq> EXTRACTED_TEXT_FOLDER \<longrightarrow> dirs (log (RemovedDuplicateText f first) s1) d = dirs s d"
    using r by simp
  moreover have "messages (log (RemovedDuplicateText f first) s1) = messages s @ [RemovedDuplicateText f first]"
    using r by simp
  ultimately show ?thesis by simp
qed

lemmas name_defs = endswith_def lower_name_def lower_char_def splitext_def rfind_def
lemmas os_defs = listdir_def lookup_def path_exists_def read_text_def remove_def copy2_def move_def
  makedirs_def ensure_folders_def log_def write_text_def

definition empty_buckets :: state where
  "empty_buckets =
     \<lparr>dirs = (\<lambda>d. case d of Folder p \<Rightarrow> None | _ \<Rightarrow> Some []), messages = []\<rparr>"

definition plain_file :: "string \<Rightarrow> bool \<Rightarrow> regfile" where
  "plain_file c r = \<lparr>content = ascii c, readable = r, st_size = length c, st_mtime = 0\<rparr>"

text \<open>
  C3. A copy that fails during the intake: the handler is around the whole walk, so the
  error is logged once and the files after the failing one are not visited. Here the
  second of four files cannot be read; the first is copied, the third and the fourth are
  neither copied nor counted.
\<close>

theorem copy_pdfs_to_main_folder_stops_at_first_failure:
  "copy_pdfs_to_main_folder
     (Some [(''ok.pdf'', File (plain_file ''one'' True)),
            (''locked.pdf'', File (plain_file ''two'' False)),
            (''later.pdf'', File (plain_file ''three'' True)),
            (''notes.txt'', File (plain_file ''four'' True))]) empty_buckets =
   \<lparr>dirs = (dirs empty_buckets)(MAIN_PDF_FOLDER \<mapsto> [(''ok.pdf'', plain_file ''one'' True)]),
    messages = [CopyingFiles, ErrorCopying PermissionError]\<rparr>"
  by (simp add: copy_pdfs_to_main_folder_def process_file_def name_defs os_defs
        empty_buckets_def plain_file_def Let_def)

lemma sha256_hash_ascii:
  assumes "list_all (\<lambda>c. c < 128) t"
  shows "\<exists>h. sha256_hash u t = Inr h"
proof -
  have "list_all encodable (map ascii_lower t)"
    using assms by (induction t) (auto simp: encodable_def ascii_lower_def)
  then have "list_all encodable (normalized_spec u t)"
    using assms by (auto simp add: normalized_spec_def lower_def list_all_iff)
  then obtain bs where "encode_utf8 (normalized_spec u t) = Inr bs"
    using encode_utf8_encodable by blast
  then show ?thesis by (simp add: sha256_hash_eq)
qed

lemma ascii_is_ascii: "list_all (\<lambda>c. c < 128) (ascii ''invoice 7 total 12'')"
  by (simp add: ascii_def)

definition plain_env :: env where
  "plain_env =
     \<lparr>ucd = (\<lambda>t. t), pdfplumber = (\<lambda>f. Some [content f]), ocr = (\<lambda>f. None),
      now = \<lparr>year = 2025, month = Mar, day = 7, hour = 9, minute = 5, second = 3\<rparr>,
      clock = 100\<rparr>"

theorem dedup_file_duplicate_pdf_absent_witness:
  "\<exists>h s'. sha256_hash (\<lambda>t. t) (ascii ''invoice 7 total 12'') = Inr h \<and>
     dedup_file plain_env ''b.txt'' ([h \<mapsto> ''a.txt''], 0,
        empty_buckets\<lparr>dirs := (dirs empty_buckets)(EXTRACTED_TEXT_FOLDER \<mapsto>
          [(''a.txt'', plain_file ''invoice 7 total 12'' True),
           (''b.txt'', plain_file ''invoice 7 total 12'' True)])\<rparr>) =
       ([h \<mapsto> ''a.txt''], 1, s') \<and>
     lookup s' EXTRACTED_TEXT_FOLDER ''b.txt'' = None \<and>
     dirs s' MAIN_PDF_FOLDER = Some [] \<and>
     dirs s' DUPLICATES_INVOICES_FOLDER = Some [] \<and>
     messages s' = [RemovedDuplicateText ''b.txt'' ''a.txt'']"
proof -
  let ?s = "empty_buckets\<lparr>dirs := (dirs empty_buckets)(EXTRACTED_TEXT_FOLDER \<mapsto>
          [(''a.txt'', plain_file ''invoice 7 total 12'' True),
           (''b.txt'', plain_file ''invoice 7 total 12'' True)])\<rparr>"
  obtain h where h: "sha256_hash (\<lambda>t. t) (ascii ''invoice 7 total 12'') = Inr h"
    using sha256_hash_ascii [OF ascii_is_ascii] by blast
  have 1: "read_text ?s EXTRACTED_TEXT_FOLDER ''b.txt'' = Inr (ascii ''invoice 7 total 12'')"
    by (simp add: os_defs empty_buckets_def plain_file_def)
  have 2: "sha256_hash (ucd plain_env) (ascii ''invoice 7 total 12'') = Inr h"
    using h by (simp add: plain_env_def)
  have 3: "[h \<mapsto> ''a.txt''] h = Some ''a.txt''" by simp
  have 4: "\<not> path_exists ?s MAIN_PDF_FOLDER (fst (splitext ''b.txt'') @ ''.pdf'')"
    by (simp add: os_defs empty_buckets_def)
  from dedup_file_duplicate_pdf_absent
         [where seen_hashes = "[h \<mapsto> ''a.txt'']" and removed_count = 0 and fs = "[]", OF 1 2 3 4]
  obtain s' where s': "dedup_file plain_env ''b.txt'' ([h \<mapsto> ''a.txt''], 0, ?s) = ([h \<mapsto> ''a.txt''], 0 + 1, s')"
    "lookup s' EXTRACTED_TEXT_FOLDER ''b.txt'' = None"
    "\<forall>d. d \<noteq> EXTRACTED_TEXT_FOLDER \<longrightarrow> dirs s' d = dirs ?s d"
    "messages s' = messages ?s @ [RemovedDuplicateText ''b.txt'' ''a.txt'']"
    by blast
  from s'(3) have "dirs s' MAIN_PDF_FOLDER = Some []" "dirs s' DUPLICATES_INVOICES_FOLDER = Some []"
    by (simp_all add: empty_buckets_def)
  moreover from s'(4) have "messages s' = [RemovedDuplicateText ''b.txt'' ''a.txt'']"
    by (simp add: empty_buckets_def)
  ultimately show ?thesis using h s'(1,2) by auto
qed

section \<open>What a stage leaves as it is\<close>

text \<open>
  \<open>frame D s s'\<close>: from \<open>s\<close> to \<open>s'\<close> no directory is created or deleted, and only the
  directories in \<open>D\<close> may have other entries.
\<close>

definition frame :: "path set \<Rightarrow> state \<Rightarrow> state \<Rightarrow> bool" where
  "frame D s s' \<longleftrightarrow>
     (\<forall>d. dirs s' d = None \<longleftrightarrow> dirs s d = None) \<and> (\<forall>d. d \<notin> D \<longrightarrow> dirs s' d = dirs s d)"

lemma frame_refl [simp]: "frame D s s"
  by (simp add: frame_def)

lemma frame_trans: "frame D s s' \<Longrightarrow> frame D s' s'' \<Longrightarrow> frame D s s''"
  by (simp add: frame_def)

lemma frame_mono: "frame D s s' \<Longrightarrow> D \<subseteq> D' \<Longrightarrow> frame D' s s'"
  by (auto simp: frame_def)

lemma frame_log [simp]: "frame D s (log m s') \<longleftrightarrow> frame D s s'"
  by (simp add: frame_def)

lemma frame_log_left [simp]: "frame D (log m s) s' \<longleftrightarrow> frame D s s'"
  by (simp add: frame_def)

lemma frame_dirs: "frame D s s' \<Longrightarrow> d \<notin> D \<Longrightarrow> dirs s' d = dirs s d"
  by (simp add: frame_def)

lemma frame_lookup: "frame D s s' \<Longrightarrow> d \<notin> D \<Longrightarrow> lookup s' d n = lookup s d n"
  by (simp add: frame_def lookup_def)

lemma frame_exists: "frame D s s' \<Longrightarrow> dirs s' d = None \<longleftrightarrow> dirs s d = None"
  by (simp add: frame_def)

lemma frame_listdir_Inr: "frame D s s' \<Longrightarrow> dirs s d \<noteq> None \<Longrightarrow> \<exists>ns. listdir s' d = Inr ns"
  by (auto simp: frame_def listdir_def split: option.splits)

lemma remove_frame: "remove d n s = Inr s' \<Longrightarrow> frame {d} s s'"
  using remove_Inr [of d n s s'] by (simp add: frame_def)

lemma move_frame: "move d n d' n' s = Inr s' \<Longrightarrow> d \<noteq> d' \<Longrightarrow> frame {d, d'} s s'"
  using move_Inr [of d n d' n' s s'] by (simp add: frame_def)

lemma copy2_frame: "copy2 src d n s = Inr s' \<Longrightarrow> frame {d} s s'"
  using copy2_Inr [of src d n s s'] by (simp add: frame_def)

lemma write_text_frame: "write_text t d n txt s = (r, s') \<Longrightarrow> frame {d} s s'"
  using write_text_facts [of t d n "txt" s r s'] by (simp add: frame_def)

section \<open>The comparison stage\<close>

lemma read_repo_file_dirs: "read_repo_file env r f (H, s) = (H', s') \<Longrightarrow> dirs s' = dirs s"
  by (auto simp: read_repo_file_def split: if_splits sum.splits)

lemma read_repo_files_dirs: "read_repo_files env r fs (H, s) = (H', s') \<Longrightarrow> dirs s' = dirs s"
proof (induction fs arbitrary: H s)
  case Nil
  then show ?case by simp
next
  case (Cons f fs)
  obtain H1 s1 where 1: "read_repo_file env r f (H, s) = (H1, s1)" by (cases "read_repo_file env r f (H, s)")
  with Cons.prems have "read_repo_files env r fs (H1, s1) = (H', s')" by simp
  with Cons.IH have "dirs s' = dirs s1" by blast
  with read_repo_file_dirs [OF 1] show ?case by simp
qed

lemma compare_file_effect:
  assumes "compare_file env H f (cu, cd, s) = (cu', cd', s')"
  shows "frame {EXTRACTED_TEXT_FOLDER, MAIN_PDF_FOLDER, DUPLICATES_INVOICES_FOLDER, UNIQUE_INVOICES_FOLDER} s s'"
    and "n \<noteq> f \<Longrightarrow> lookup s' EXTRACTED_TEXT_FOLDER n = lookup s EXTRACTED_TEXT_FOLDER n"
    and "lookup s MAIN_PDF_FOLDER n = None \<Longrightarrow> lookup s' MAIN_PDF_FOLDER n = None"
proof -
  let ?D = "{EXTRACTED_TEXT_FOLDER, MAIN_PDF_FOLDER, DUPLICATES_INVOICES_FOLDER, UNIQUE_INVOICES_FOLDER}"
  have "frame ?D s s' \<and> (n \<noteq> f \<longrightarrow> lookup s' EXTRACTED_TEXT_FOLDER n = lookup s EXTRACTED_TEXT_FOLDER n) \<and>
        (lookup s MAIN_PDF_FOLDER n = None \<longrightarrow> lookup s' MAIN_PDF_FOLDER n = None)"
  proof (cases "read_text s EXTRACTED_TEXT_FOLDER f")
    case (Inl e)
    with assms show ?thesis by (auto simp: compare_file_def)
  next
    case (Inr t)
    show ?thesis
    proof (cases "sha256_hash (ucd env) t")
      case (Inl e)
      with Inr assms show ?thesis by (auto simp: compare_file_def)
    next
      case h: (Inr h)
      let ?p = "fst (splitext f) @ ''.pdf''"
      show ?thesis
      proof (cases "h \<in> H")
        case True
        show ?thesis
        proof (cases "if path_exists s MAIN_PDF_FOLDER ?p
                      then move MAIN_PDF_FOLDER ?p DUPLICATES_INVOICES_FOLDER ?p s else Inr s")
          case (Inl e)
          with Inr h True assms show ?thesis by (auto simp: compare_file_def Let_def)
        next
          case s1: (Inr s1)
          have f1: "frame ?D s s1"
            using s1 move_frame [of MAIN_PDF_FOLDER ?p DUPLICATES_INVOICES_FOLDER ?p s s1]
            by (auto split: if_splits intro: frame_mono)
          have l1: "lookup s1 EXTRACTED_TEXT_FOLDER m = lookup s EXTRACTED_TEXT_FOLDER m"
               "lookup s MAIN_PDF_FOLDER m = None \<Longrightarrow> lookup s1 MAIN_PDF_FOLDER m = None" for m
            using s1 move_Inr [of MAIN_PDF_FOLDER ?p DUPLICATES_INVOICES_FOLDER ?p s s1]
            by (auto split: if_splits)
          show ?thesis
          proof (cases "remove EXTRACTED_TEXT_FOLDER f s1")
            case (Inl e)
            with Inr h True s1 assms have "s' = log (ErrorComparing f e) s1"
              by (auto simp: compare_file_def Let_def)
            with f1 l1 show ?thesis by simp
          next
            case s2: (Inr s2)
            with Inr h True s1 assms have s': "s' = log (MovedDuplicateDeletedText ?p) s2"
              by (auto simp: compare_file_def Let_def)
            have "frame ?D s1 s2"
              using remove_frame [OF s2] by (rule frame_mono) simp
            with f1 have "frame ?D s s2" by (rule frame_trans)
            moreover have "n \<noteq> f \<longrightarrow> lookup s2 EXTRACTED_TEXT_FOLDER n = lookup s EXTRACTED_TEXT_FOLDER n"
              using remove_Inr [OF s2] l1 by simp
            moreover have "lookup s MAIN_PDF_FOLDER n = None \<longrightarrow> lookup s2 MAIN_PDF_FOLDER n = None"
              using remove_Inr [OF s2] l1 by simp
            ultimately show ?thesis using s' by simp
          qed
        qed
      next
        case False
        show ?thesis
        proof (cases "path_exists s MAIN_PDF_FOLDER ?p")
          case True
          show ?thesis
          proof (cases "move MAIN_PDF_FOLDER ?p UNIQUE_INVOICES_FOLDER ?p s")
            case (Inl e)
            with Inr h False True assms show ?thesis by (auto simp: compare_file_def Let_def)
          next
            case s1: (Inr s1)
            with Inr h False True assms have s': "s' = log (MovedUniquePdf ?p) s1"
              by (auto simp: compare_file_def Let_def)
            have "frame ?D s s1"
              using move_frame [OF s1] by (auto intro: frame_mono)
            moreover have "lookup s1 EXTRACTED_TEXT_FOLDER n = lookup s EXTRACTED_TEXT_FOLDER n"
              "lookup s MAIN_PDF_FOLDER n = None \<longrightarrow> lookup s1 MAIN_PDF_FOLDER n = None"
              using move_Inr [OF s1] by auto
            ultimately show ?thesis using s' by simp
          qed
        next
          case nex: False
          with Inr h False assms show ?thesis by (auto simp: compare_file_def Let_def)
        qed
      qed
    qed
  qed
  then show "frame ?D s s'"
    and "n \<noteq> f \<Longrightarrow> lookup s' EXTRACTED_TEXT_FOLDER n = lookup s EXTRACTED_TEXT_FOLDER n"
    and "lookup s MAIN_PDF_FOLDER n = None \<Longrightarrow> lookup s' MAIN_PDF_FOLDER n = None"
    by simp_all
qed

lemma compare_files_effect_all:
  "compare_files env H fs (cu, cd, s) = (cu', cd', s') \<Longrightarrow>
     frame {EXTRACTED_TEXT_FOLDER, MAIN_PDF_FOLDER, DUPLICATES_INVOICES_FOLDER, UNIQUE_INVOICES_FOLDER} s s' \<and>
     (\<forall>n. n \<notin> set fs \<longrightarrow> lookup s' EXTRACTED_TEXT_FOLDER n = lookup s EXTRACTED_TEXT_FOLDER n) \<and>
     (\<forall>n. lookup s MAIN_PDF_FOLDER n = None \<longrightarrow> lookup s' MAIN_PDF_FOLDER n = None)"
proof (induction fs arbitrary: cu cd s)
  case Nil
  then show ?case by simp
next
  case (Cons f fs)
  obtain cu1 cd1 s1 where cf: "compare_file env H f (cu, cd, s) = (cu1, cd1, s1)"
    by (cases "compare_file env H f (cu, cd, s)") auto
  with Cons.prems have r: "compare_files env H fs (cu1, cd1, s1) = (cu', cd', s')" by simp
  note a = compare_file_effect [OF cf]
  note b = Cons.IH [OF r]
  have "frame {EXTRACTED_TEXT_FOLDER, MAIN_PDF_FOLDER, DUPLICATES_INVOICES_FOLDER, UNIQUE_INVOICES_FOLDER} s s'"
    using a(1) b by (blast intro: frame_trans)
  moreover have "\<forall>n. n \<notin> set (f # fs) \<longrightarrow> lookup s' EXTRACTED_TEXT_FOLDER n = lookup s EXTRACTED_TEXT_FOLDER n"
    using a(2) b by simp
  moreover have "\<forall>n. lookup s MAIN_PDF_FOLDER n = None \<longrightarrow> lookup s' MAIN_PDF_FOLDER n = None"
    using a(3) b by blast
  ultimately show ?case by blast
qed

lemma compare_files_effect:
  assumes "compare_files env H fs (cu, cd, s) = (cu', cd', s')"
  shows "frame {EXTRACTED_TEXT_FOLDER, MAIN_PDF_FOLDER, DUPLICATES_INVOICES_FOLDER, UNIQUE_INVOICES_FOLDER} s s'"
    and "n \<notin> set fs \<Longrightarrow> lookup s' EXTRACTED_TEXT_FOLDER n = lookup s EXTRACTED_TEXT_FOLDER n"
    and "lookup s MAIN_PDF_FOLDER n = None \<Longrightarrow> lookup s' MAIN_PDF_FOLDER n = None"
  using compare_files_effect_all [OF assms] by blast+

lemma read_text_lookup:
  "lookup s' d n = lookup s d n \<Longrightarrow> read_text s' d n = read_text s d n"
  by (simp add: read_text_def)



lemma copy_exception_frame: "frame {UNIQUE_INVOICES_FOLDER} s (copy_exception f s)"
proof (cases "copy2 (lookup s EXCEPTION_FOLDER f) UNIQUE_INVOICES_FOLDER f s")
  case (Inl e)
  then show ?thesis by (simp add: copy_exception_def)
next
  case (Inr s')
  then show ?thesis using copy2_frame [OF Inr] by (simp add: copy_exception_def)
qed

lemma copy_exception_other:
  "n \<noteq> f \<Longrightarrow> lookup (copy_exception f s) UNIQUE_INVOICES_FOLDER n = lookup s UNIQUE_INVOICES_FOLDER n"
proof (cases "copy2 (lookup s EXCEPTION_FOLDER f) UNIQUE_INVOICES_FOLDER f s")
  case (Inl e)
  then show ?thesis by (simp add: copy_exception_def)
next
  case (Inr s')
  assume "n \<noteq> f"
  then show ?thesis using copy2_Inr [OF Inr] Inr by (simp add: copy_exception_def)
qed

lemma copy_exceptions_frame: "frame {UNIQUE_INVOICES_FOLDER} s (copy_exceptions fs s)"
proof (induction fs arbitrary: s)
  case Nil
  show ?case by simp
next
  case (Cons f fs)
  show ?case
    using copy_exception_frame [of s f] Cons [of "copy_exception f s"]
    by (auto intro: frame_trans)
qed

lemma copy_exceptions_other:
  "n \<notin> set fs \<Longrightarrow> lookup (copy_exceptions fs s) UNIQUE_INVOICES_FOLDER n = lookup s UNIQUE_INVOICES_FOLDER n"
  by (induction fs arbitrary: s) (simp_all add: copy_exception_other)

lemma copy_exception_copies:
  assumes "endswith (lower_name f) ''.pdf''" "lookup s EXCEPTION_FOLDER f = Some info" "readable info"
    and "dirs s UNIQUE_INVOICES_FOLDER \<noteq> None"
  shows "lookup (copy_exception f s) UNIQUE_INVOICES_FOLDER f = Some info"
proof -
  obtain s' where s': "copy2 (Some info) UNIQUE_INVOICES_FOLDER f s = Inr s'"
    using copy2_ok assms(3,4) by blast
  then show ?thesis
    using assms copy2_Inr [OF s'] by (simp add: copy_exception_def)
qed

lemma copy_exceptions_copies:
  assumes "f \<in> set fs" "endswith (lower_name f) ''.pdf''" "lookup s EXCEPTION_FOLDER f = Some info"
    and "readable info" "dirs s UNIQUE_INVOICES_FOLDER \<noteq> None"
  shows "lookup (copy_exceptions fs s) UNIQUE_INVOICES_FOLDER f = Some info"
  using assms(1,3,5)
proof (induction fs arbitrary: s)
  case Nil
  then show ?case by simp
next
  case (Cons g fs)
  let ?s1 = "copy_exception g s"
  have fr: "frame {UNIQUE_INVOICES_FOLDER} s ?s1" by (rule copy_exception_frame)
  then have e: "lookup ?s1 EXCEPTION_FOLDER f = Some info"
    using Cons.prems(2) by (simp add: frame_lookup)
  have u: "dirs ?s1 UNIQUE_INVOICES_FOLDER \<noteq> None"
    using fr Cons.prems(3) by (simp add: frame_exists)
  show ?case
  proof (cases "f \<in> set fs")
    case True
    then show ?thesis using Cons.IH [OF _ e u] by simp
  next
    case False
    with Cons.prems have "g = f" by simp
    then have "lookup ?s1 UNIQUE_INVOICES_FOLDER f = Some info"
      using copy_exception_copies [OF assms(2) Cons.prems(2) assms(4) Cons.prems(3)] by simp
    with False show ?thesis by (simp add: copy_exceptions_other)
  qed
qed

lemma lookup_in_listdir:
  "lookup s d n = Some info \<Longrightarrow> listdir s d = Inr ns \<Longrightarrow> n \<in> set ns"
  by (force simp: lookup_def listdir_def split: option.splits dest: map_of_SomeD)

lemma cross_compare_Inr:
  assumes "cross_compare_with_repository env r s = Inr s'"
  obtains repo_names H s1 names cu cd s2 xs where
    "listdir s (Folder r) = Inr repo_names"
    "read_repo_files env r repo_names ({}, log (CrossComparing r) s) = (H, s1)"
    "listdir s1 EXTRACTED_TEXT_FOLDER = Inr names"
    "compare_files env H (filter (\<lambda>f. endswith (lower_name f) ''.txt'') names) (0, 0, s1) = (cu, cd, s2)"
    "listdir s2 EXCEPTION_FOLDER = Inr xs"
    "s' = log (CrossComparisonComplete cu cd) (copy_exceptions xs s2)"
proof -
  let ?s0 = "log (CrossComparing r) s"
  obtain rn where rn: "listdir ?s0 (Folder r) = Inr rn"
    using assms by (cases "listdir ?s0 (Folder r)") (simp_all add: cross_compare_with_repository_def Let_def)
  obtain H s1 where rr: "read_repo_files env r rn ({}, ?s0) = (H, s1)"
    by (cases "read_repo_files env r rn ({}, ?s0)")
  obtain names where nm: "listdir s1 EXTRACTED_TEXT_FOLDER = Inr names"
    using assms rn rr
    by (cases "listdir s1 EXTRACTED_TEXT_FOLDER") (simp_all add: cross_compare_with_repository_def Let_def)
  obtain cu cd s2 where cf:
    "compare_files env H (filter (\<lambda>f. endswith (lower_name f) ''.txt'') names) (0, 0, s1) = (cu, cd, s2)"
    by (cases "compare_files env H (filter (\<lambda>f. endswith (lower_name f) ''.txt'') names) (0, 0, s1)") auto
  obtain xs where xs: "listdir s2 EXCEPTION_FOLDER = Inr xs"
    using assms rn rr nm cf
    by (cases "listdir s2 EXCEPTION_FOLDER") (simp_all add: cross_compare_with_repository_def Let_def)
  have "s' = log (CrossComparisonComplete cu cd) (copy_exceptions xs s2)"
    using assms rn rr nm cf xs by (simp add: cross_compare_with_repository_def Let_def)
  with rn rr nm cf xs show ?thesis using that by simp
qed

lemma listdir_ok: "dirs s d \<noteq> None \<Longrightarrow> \<exists>ns. listdir s d = Inr ns"
  by (auto simp: listdir_def split: option.splits)

lemma listdir_Some: "dirs s d = Some es \<Longrightarrow> listdir s d = Inr (map fst es)"
  by (simp add: listdir_def)

lemma cross_compare_ok:
  assumes "dirs s (Folder r) \<noteq> None" "dirs s EXTRACTED_TEXT_FOLDER \<noteq> None" "dirs s EXCEPTION_FOLDER \<noteq> None"
  shows "\<exists>s'. cross_compare_with_repository env r s = Inr s'"
proof -
  let ?s0 = "log (CrossComparing r) s"
  obtain rn where rn: "listdir ?s0 (Folder r) = Inr rn"
    using listdir_ok [OF assms(1)] by auto
  obtain H s1 where rr: "read_repo_files env r rn ({}, ?s0) = (H, s1)"
    by (cases "read_repo_files env r rn ({}, ?s0)")
  have d1: "dirs s1 = dirs s" using read_repo_files_dirs [OF rr] by simp
  obtain names where nm: "listdir s1 EXTRACTED_TEXT_FOLDER = Inr names"
    using listdir_ok [of s1 EXTRACTED_TEXT_FOLDER] assms(2) d1 by auto
  obtain cu cd s2 where cf:
    "compare_files env H (filter (\<lambda>f. endswith (lower_name f) ''.txt'') names) (0, 0, s1) = (cu, cd, s2)"
    by (cases "compare_files env H (filter (\<lambda>f. endswith (lower_name f) ''.txt'') names) (0, 0, s1)") auto
  have "dirs s2 EXCEPTION_FOLDER \<noteq> None"
    using compare_files_effect(1) [OF cf] d1 assms(3) by (simp add: frame_def)
  then obtain xs where xs: "listdir s2 EXCEPTION_FOLDER = Inr xs"
    using listdir_ok by blast
  show ?thesis
    using rn rr nm cf xs by (simp add: cross_compare_with_repository_def Let_def)
qed

text \<open>
  C6. Whatever the comparison stage does, it leaves the Exception folder as it is; and a
  PDF that is there and can be read, so that \<open>shutil.copy2\<close> succeeds on it, is, after the
  stage, also in the Unique folder, with the same content and metadata. The condition on the
  file is needed: the copy of each file has its own handler, and a PDF whose copy fails is
  logged and stays in the Exception folder only (the example after the theorem).
\<close>

theorem exception_pdfs_are_copied_to_unique:
  assumes "cross_compare_with_repository env repository_folder s = Inr s'"
    and "dirs s UNIQUE_INVOICES_FOLDER \<noteq> None"
    and "lookup s EXCEPTION_FOLDER f = Some info"
    and "endswith (lower_name f) ''.pdf''"
    and "readable info"
  shows "dirs s' EXCEPTION_FOLDER = dirs s EXCEPTION_FOLDER \<and>
         lookup s' EXCEPTION_FOLDER f = Some info \<and>
         lookup s' UNIQUE_INVOICES_FOLDER f = Some info"
proof -
  from assms(1) obtain repo_names H s1 names cu cd s2 xs where
    rr: "read_repo_files env repository_folder repo_names ({}, log (CrossComparing repository_folder) s) = (H, s1)"
    and cf: "compare_files env H (filter (\<lambda>f. endswith (lower_name f) ''.txt'') names) (0, 0, s1) = (cu, cd, s2)"
    and xs: "listdir s2 EXCEPTION_FOLDER = Inr xs"
    and s': "s' = log (CrossComparisonComplete cu cd) (copy_exceptions xs s2)"
    by (rule cross_compare_Inr)
  have d1: "dirs s1 = dirs s" using read_repo_files_dirs [OF rr] by simp
  have f2: "frame {EXTRACTED_TEXT_FOLDER, MAIN_PDF_FOLDER, DUPLICATES_INVOICES_FOLDER, UNIQUE_INVOICES_FOLDER} s1 s2"
    by (rule compare_files_effect(1) [OF cf])
  have e2: "dirs s2 EXCEPTION_FOLDER = dirs s EXCEPTION_FOLDER"
    using f2 d1 by (simp add: frame_def)
  then have l2: "lookup s2 EXCEPTION_FOLDER f = Some info"
    using assms(3) by (simp add: lookup_def)
  have u2: "dirs s2 UNIQUE_INVOICES_FOLDER \<noteq> None"
    using f2 d1 assms(2) by (simp add: frame_def)
  have f3: "frame {UNIQUE_INVOICES_FOLDER} s2 (copy_exceptions xs s2)"
    by (rule copy_exceptions_frame)
  have "f \<in> set xs" using l2 xs by (rule lookup_in_listdir)
  then have "lookup (copy_exceptions xs s2) UNIQUE_INVOICES_FOLDER f = Some info"
    using assms(4) l2 assms(5) u2 by (rule copy_exceptions_copies)
  moreover have "dirs (copy_exceptions xs s2) EXCEPTION_FOLDER = dirs s EXCEPTION_FOLDER"
    using f3 e2 by (simp add: frame_def)
  ultimately show ?thesis using s' assms(3) by (simp add: lookup_def)
qed

definition exception_example :: state where
  "exception_example =
     empty_buckets\<lparr>dirs := (dirs empty_buckets)
       (Folder ''repo'' \<mapsto> [],
        EXCEPTION_FOLDER \<mapsto> [(''notes.txt'', plain_file ''memo'' True),
                             (''scan.PDF'', plain_file ''no text layer'' True)])\<rparr>"

theorem exception_pdfs_are_copied_to_unique_witness:
  "\<exists>s'. cross_compare_with_repository plain_env ''repo'' exception_example = Inr s' \<and>
     dirs s' EXCEPTION_FOLDER =
       Some [(''notes.txt'', plain_file ''memo'' True), (''scan.PDF'', plain_file ''no text layer'' True)] \<and>
     lookup s' EXCEPTION_FOLDER ''scan.PDF'' = Some (plain_file ''no text layer'' True) \<and>
     lookup s' UNIQUE_INVOICES_FOLDER ''scan.PDF'' = Some (plain_file ''no text layer'' True)"
proof -
  obtain s' where run: "cross_compare_with_repository plain_env ''repo'' exception_example = Inr s'"
    using cross_compare_ok [of exception_example "''repo''" plain_env]
    by (auto simp: exception_example_def empty_buckets_def)
  have u: "dirs exception_example UNIQUE_INVOICES_FOLDER \<noteq> None"
    by (simp add: exception_example_def empty_buckets_def)
  have l: "lookup exception_example EXCEPTION_FOLDER ''scan.PDF'' = Some (plain_file ''no text layer'' True)"
    by (simp add: exception_example_def empty_buckets_def lookup_def)
  have p: "endswith (lower_name ''scan.PDF'') ''.pdf''"
    by (simp add: name_defs)
  have r: "readable (plain_file ''no text layer'' True)"
    by (simp add: plain_file_def)
  from exception_pdfs_are_copied_to_unique [OF run u l p r] run show ?thesis
    by (simp add: exception_example_def empty_buckets_def)
qed

text \<open>
  Without the condition the statement of C6 fails. The Exception folder holds one PDF that
  cannot be read; the stage returns, logs that the copy failed, and changes no folder: the
  file is still in the Exception folder and is not in the Unique folder.
\<close>

definition locked_example :: state where
  "locked_example =
     empty_buckets\<lparr>dirs := (dirs empty_buckets)
       (Folder ''repo'' \<mapsto> [],
        EXCEPTION_FOLDER \<mapsto> [(''locked.pdf'', plain_file ''no text layer'' False)])\<rparr>"

theorem exception_pdf_copy_fails_counterexample:
  "cross_compare_with_repository plain_env ''repo'' locked_example =
     Inr (locked_example\<lparr>messages :=
       [CrossComparing ''repo'', CouldNotCopyExceptionPdf ''locked.pdf'' PermissionError,
        CrossComparisonComplete 0 0]\<rparr>) \<and>
   endswith (lower_name ''locked.pdf'') ''.pdf'' \<and>
   lookup locked_example EXCEPTION_FOLDER ''locked.pdf'' = Some (plain_file ''no text layer'' False) \<and>
   lookup (locked_example\<lparr>messages :=
       [CrossComparing ''repo'', CouldNotCopyExceptionPdf ''locked.pdf'' PermissionError,
        CrossComparisonComplete 0 0]\<rparr>) EXCEPTION_FOLDER ''locked.pdf'' =
     Some (plain_file ''no text layer'' False) \<and>
   lookup (locked_example\<lparr>messages :=
       [CrossComparing ''repo'', CouldNotCopyExceptionPdf ''locked.pdf'' PermissionError,
        CrossComparisonComplete 0 0]\<rparr>) UNIQUE_INVOICES_FOLDER ''locked.pdf'' = None"
  by (simp add: cross_compare_with_repository_def copy_exception_def name_defs os_defs
        locked_example_def empty_buckets_def plain_file_def Let_def)

section \<open>The names the updater gives\<close>

text \<open>\<open>probe base k\<close>: the \<open>k\<close>-th name the loop tries, the base name first.\<close>

definition probe :: "string \<Rightarrow> nat \<Rightarrow> string" where
  "probe base k = (if k = 0 then base else numbered base k)"

lemma resolve_name_probe:
  "\<exists>k\<ge>j. resolve_name d t m s r (probe (base_name d t m) j) (Suc j) = probe (base_name d t m) k \<and>
          \<not> path_exists s (Folder r) (probe (base_name d t m) k) \<and>
          (\<forall>i. j \<le> i \<and> i < k \<longrightarrow> path_exists s (Folder r) (probe (base_name d t m) i))"
proof -
  let ?b = "base_name d t m"
  let ?P = "\<lambda>k. path_exists s (Folder r) (probe ?b k)"
  have "\<forall>j. new_name = probe ?b j \<and> count = Suc j \<longrightarrow>
          (\<exists>k\<ge>j. resolve_name d t m s r new_name count = probe ?b k \<and> \<not> ?P k \<and>
                 (\<forall>i. j \<le> i \<and> i < k \<longrightarrow> ?P i))" for new_name count
  proof (induction d t m s r new_name count rule: resolve_name.induct)
    case (1 d t m s r new_name count)
    let ?b = "base_name d t m"
    let ?P = "\<lambda>k. path_exists s (Folder r) (probe ?b k)"
    show ?case
    proof (intro allI impI)
      fix j assume a: "new_name = probe ?b j \<and> count = Suc j"
      show "\<exists>k\<ge>j. resolve_name d t m s r new_name count = probe ?b k \<and> \<not> ?P k \<and>
                 (\<forall>i. j \<le> i \<and> i < k \<longrightarrow> ?P i)"
      proof (cases "path_exists s (Folder r) new_name")
        case True
        have n: "replace ?b ''.txt'' (''_'' @ str_nat count @ ''.txt'') = probe ?b (Suc j)"
          using a by (simp add: probe_def numbered_def)
        from 1 [OF True] n a obtain k where k: "Suc j \<le> k"
          "resolve_name d t m s r (probe ?b (Suc j)) (Suc (Suc j)) = probe ?b k" "\<not> ?P k"
          "\<forall>i. Suc j \<le> i \<and> i < k \<longrightarrow> ?P i"
          by auto
        have "resolve_name d t m s r new_name count = probe ?b k"
          using True n a k(2) by (subst resolve_name.simps) simp
        moreover have "\<forall>i. j \<le> i \<and> i < k \<longrightarrow> ?P i"
        proof (intro allI impI)
          fix i assume "j \<le> i \<and> i < k"
          then consider "i = j" | "Suc j \<le> i \<and> i < k" by linarith
          then show "?P i" using True a k(4) by cases auto
        qed
        ultimately show ?thesis using k(1,3) by (intro exI [of _ k]) simp
      next
        case False
        then have "resolve_name d t m s r new_name count = new_name"
          by (subst resolve_name.simps) simp
        with False a show ?thesis by (intro exI [of _ j]) auto
      qed
    qed
  qed
  then show ?thesis by blast
qed

lemma replace_from_plain:
  "CHR ''.'' \<notin> set stem \<Longrightarrow> replace_from (stem @ ''.txt'') ''.txt'' new = stem @ new"
proof (induction stem)
  case Nil
  have "replace_from [] ''.txt'' new = []" by (subst replace_from.simps) simp
  then show ?case by (subst replace_from.simps) simp
next
  case (Cons c stem)
  then have "c \<noteq> CHR ''.''" by auto
  then have "replace_from ((c # stem) @ ''.txt'') ''.txt'' new = c # replace_from (stem @ ''.txt'') ''.txt'' new"
    by (subst replace_from.simps) simp
  with Cons show ?case by simp
qed

lemma numbered_plain:
  "CHR ''.'' \<notin> set stem \<Longrightarrow> numbered (stem @ ''.txt'') k = stem @ ''_'' @ str_nat k @ ''.txt''"
  by (simp add: numbered_def replace_def replace_from_plain)

lemma probe_inj:
  assumes "CHR ''.'' \<notin> set stem" "probe (stem @ ''.txt'') k = probe (stem @ ''.txt'') k'"
  shows "k = k'"
proof -
  have ne: "stem @ ''.txt'' \<noteq> stem @ ''_'' @ str_nat j @ ''.txt''" for j
    by simp
  show ?thesis
  proof (cases "k = 0")
    case True
    with assms ne [of k'] show ?thesis
      by (cases "k' = 0") (simp_all add: probe_def numbered_plain)
  next
    case False
    show ?thesis
    proof (cases "k' = 0")
      case True
      with False assms ne [of k] show ?thesis by (simp add: probe_def numbered_plain)
    next
      case k': False
      with False assms have "str_nat k = str_nat k'" by (simp add: probe_def numbered_plain)
      then show ?thesis by (rule str_nat_inj)
    qed
  qed
qed

lemma is_digit_not_dot: "list_all is_digit ds \<Longrightarrow> CHR ''.'' \<notin> set ds"
  by (induction ds) (auto simp: is_digit_def)

lemma zfill_no_dot: "CHR ''.'' \<notin> set (zfill w (str_nat n))"
  using is_digit_not_dot [OF str_nat_digits [of n]] by (auto simp: zfill_def)

lemma month_abbr_no_dot: "CHR ''.'' \<notin> set (month_abbr m)"
  by (cases m) (simp_all add: month_abbr_def)

text \<open>The stem of the name for a run at the time \<open>t\<close>, and the name in full.\<close>

definition stem_of :: "datetime \<Rightarrow> string" where
  "stem_of t = ''INVC_'' @ strftime_dmY t @ ''_'' @ strftime_HMS t @ ''_'' @ strftime_b_y t"

lemma base_name_stem:
  "base_name (strftime_dmY t) (strftime_HMS t) (strftime_b_y t) = stem_of t @ ''.txt''"
  by (simp add: base_name_def stem_of_def)

lemma stem_no_dot: "CHR ''.'' \<notin> set (stem_of t)"
  by (simp add: stem_of_def strftime_dmY_def strftime_HMS_def strftime_b_y_def zfill_no_dot
        month_abbr_no_dot)

lemma update_new: "k \<notin> fst ` set al \<Longrightarrow> AList.update k v al = al @ [(k, v)]"
  by (induction al) auto

lemma delete_middle:
  "distinct (map fst (Ds @ (f, info) # Es)) \<Longrightarrow> AList.delete f (Ds @ (f, info) # Es) = Ds @ Es"
proof -
  assume "distinct (map fst (Ds @ (f, info) # Es))"
  then have "f \<notin> fst ` set Ds" "f \<notin> fst ` set Es" by auto
  then have "AList.delete f Ds = Ds" "AList.delete f Es = Es" by (simp_all add: AList.delete_id)
  moreover have "AList.delete f (Ds @ (f, info) # Es) = AList.delete f Ds @ AList.delete f Es"
    by (simp add: AList.delete_eq)
  ultimately show ?thesis by simp
qed

lemma map_of_middle:
  "distinct (map fst (Ds @ (f, info) # Es)) \<Longrightarrow> map_of (Ds @ (f, info) # Es) f = Some info"
  by (induction Ds) auto

lemma path_exists_Some:
  "dirs s d = Some es \<Longrightarrow> path_exists s d n \<longleftrightarrow> n \<in> fst ` set es"
  by (auto simp: path_exists_def lookup_def map_of_eq_None_iff)

definition is_txt :: "string \<times> regfile \<Rightarrow> bool" where
  "is_txt e \<longleftrightarrow> endswith (lower_name (fst e)) ''.txt''"

lemma update_file_txt:
  assumes "dirs s EXTRACTED_TEXT_FOLDER = Some (Ds @ (f, info) # Es)"
    and "distinct (map fst (Ds @ (f, info) # Es))"
    and "dirs s (Folder r) = Some R"
    and "endswith (lower_name f) ''.txt''"
  shows "\<exists>k s'. update_file (strftime_dmY t) (strftime_HMS t) (strftime_b_y t) r f (c, s) =
             (c + 1, log (MovedRenamed f (probe (stem_of t @ ''.txt'') k)) s') \<and>
           probe (stem_of t @ ''.txt'') k \<notin> fst ` set R \<and>
           (\<forall>i<k. probe (stem_of t @ ''.txt'') i \<in> fst ` set R) \<and>
           dirs s' = (dirs s)(EXTRACTED_TEXT_FOLDER \<mapsto> Ds @ Es,
                             Folder r \<mapsto> R @ [(probe (stem_of t @ ''.txt'') k, info)]) \<and>
           messages s' = messages s"
proof -
  let ?d = "strftime_dmY t" and ?t = "strftime_HMS t" and ?m = "strftime_b_y t"
  let ?b = "stem_of t @ ''.txt''"
  have b: "base_name ?d ?t ?m = ?b" by (rule base_name_stem)
  from resolve_name_probe [of 0 ?d ?t ?m s r] obtain k where
    k: "resolve_name ?d ?t ?m s r (probe ?b 0) (Suc 0) = probe ?b k"
       "\<not> path_exists s (Folder r) (probe ?b k)"
       "\<forall>i. i < k \<longrightarrow> path_exists s (Folder r) (probe ?b i)"
    unfolding b by auto
  have r: "resolve_name ?d ?t ?m s r (base_name ?d ?t ?m) 1 = probe ?b k"
    using k(1) by (simp add: b probe_def)
  have free: "probe ?b k \<notin> fst ` set R"
    using k(2) path_exists_Some [OF assms(3)] by simp
  have below: "\<forall>i<k. probe ?b i \<in> fst ` set R"
    using k(3) path_exists_Some [OF assms(3)] by simp
  let ?s' = "s\<lparr>dirs := (dirs s)(EXTRACTED_TEXT_FOLDER \<mapsto> Ds @ Es, Folder r \<mapsto> R @ [(probe ?b k, info)])\<rparr>"
  have "move EXTRACTED_TEXT_FOLDER f (Folder r) (probe ?b k) s = Inr ?s'"
    using assms(1,3) map_of_middle [OF assms(2)] delete_middle [OF assms(2)] update_new [OF free]
    by (simp add: move_def)
  then have "update_file ?d ?t ?m r f (c, s) = (c + 1, log (MovedRenamed f (probe ?b k)) ?s')"
    using assms(4) r by (simp add: update_file_def Let_def)
  then show ?thesis using free below
    by (intro exI [of _ k] exI [of _ ?s']) simp
qed

lemma update_file_other:
  "\<not> endswith (lower_name f) ''.txt'' \<Longrightarrow> update_file d t m r f v = v"
  by (cases v) (simp add: update_file_def)

lemma update_files_entries:
  assumes "dirs s EXTRACTED_TEXT_FOLDER = Some (Ds @ Es)"
    and "distinct (map fst (Ds @ Es))"
    and "dirs s (Folder r) = Some R"
    and "\<forall>i<j0. probe (stem_of t @ ''.txt'') i \<in> fst ` set R"
  shows "\<exists>ks s'.
      update_files (strftime_dmY t) (strftime_HMS t) (strftime_b_y t) r (map fst Es) (c, s) =
        (c + length (filter is_txt Es), s') \<and>
      length ks = length (filter is_txt Es) \<and> sorted_wrt (<) ks \<and> (\<forall>k\<in>set ks. j0 \<le> k) \<and>
      (\<forall>i<length ks.
         probe (stem_of t @ ''.txt'') (ks ! i) \<notin>
           fst ` set R \<union> probe (stem_of t @ ''.txt'') ` set (take i ks) \<and>
         (\<forall>j<ks ! i. probe (stem_of t @ ''.txt'') j \<in>
           fst ` set R \<union> probe (stem_of t @ ''.txt'') ` set (take i ks))) \<and>
      dirs s' EXTRACTED_TEXT_FOLDER = Some (Ds @ filter (\<lambda>e. \<not> is_txt e) Es) \<and>
      dirs s' (Folder r) =
        Some (R @ map2 (\<lambda>k e. (probe (stem_of t @ ''.txt'') k, snd e)) ks (filter is_txt Es)) \<and>
      (\<forall>d. d \<noteq> EXTRACTED_TEXT_FOLDER \<and> d \<noteq> Folder r \<longrightarrow> dirs s' d = dirs s d) \<and>
      messages s' = messages s @
        map2 (\<lambda>k e. MovedRenamed (fst e) (probe (stem_of t @ ''.txt'') k)) ks (filter is_txt Es)"
  using assms
proof (induction Es arbitrary: Ds R s c j0)
  case Nil
  show ?case
    using Nil.prems(1,3) by (intro exI [of _ "[]"] exI [of _ s]) simp
next
  case (Cons e Es)
  obtain f info where e: "e = (f, info)" by (cases e)
  let ?nm = "probe (stem_of t @ ''.txt'')"
  let ?d = "strftime_dmY t" and ?t = "strftime_HMS t" and ?m = "strftime_b_y t"
  show ?case
  proof (cases "is_txt e")
    case False
    then have nt: "\<not> endswith (lower_name f) ''.txt''" by (simp add: is_txt_def e)
    have 1: "dirs s EXTRACTED_TEXT_FOLDER = Some ((Ds @ [e]) @ Es)"
      and 2: "distinct (map fst ((Ds @ [e]) @ Es))"
      using Cons.prems(1,2) by simp_all
    from Cons.IH [OF 1 2 Cons.prems(3,4), of c] obtain ks s' where ih:
      "update_files ?d ?t ?m r (map fst Es) (c, s) = (c + length (filter is_txt Es), s')"
      "length ks = length (filter is_txt Es)" "sorted_wrt (<) ks" "\<forall>k\<in>set ks. j0 \<le> k"
      "\<forall>i<length ks. ?nm (ks ! i) \<notin> fst ` set R \<union> ?nm ` set (take i ks) \<and>
         (\<forall>j<ks ! i. ?nm j \<in> fst ` set R \<union> ?nm ` set (take i ks))"
      "dirs s' EXTRACTED_TEXT_FOLDER = Some ((Ds @ [e]) @ filter (\<lambda>e. \<not> is_txt e) Es)"
      "dirs s' (Folder r) = Some (R @ map2 (\<lambda>k e. (?nm k, snd e)) ks (filter is_txt Es))"
      "\<forall>d. d \<noteq> EXTRACTED_TEXT_FOLDER \<and> d \<noteq> Folder r \<longrightarrow> dirs s' d = dirs s d"
      "messages s' = messages s @ map2 (\<lambda>k e. MovedRenamed (fst e) (?nm k)) ks (filter is_txt Es)"
      by blast
    have "update_files ?d ?t ?m r (map fst (e # Es)) (c, s) = (c + length (filter is_txt (e # Es)), s')"
      using ih(1) False nt by (simp add: e update_file_other)
    then show ?thesis
      using ih(2-9) False by (intro exI [of _ ks] exI [of _ s']) simp
  next
    case True
    then have tx: "endswith (lower_name f) ''.txt''" by (simp add: is_txt_def e)
    from update_file_txt [OF Cons.prems(1) [unfolded e] Cons.prems(2) [unfolded e] Cons.prems(3) tx, of t c]
    obtain k s1 where k:
      "update_file ?d ?t ?m r f (c, s) = (c + 1, log (MovedRenamed f (?nm k)) s1)"
      "?nm k \<notin> fst ` set R" "\<forall>i<k. ?nm i \<in> fst ` set R"
      "dirs s1 = (dirs s)(EXTRACTED_TEXT_FOLDER \<mapsto> Ds @ Es, Folder r \<mapsto> R @ [(?nm k, info)])"
      "messages s1 = messages s"
      by blast
    let ?s1 = "log (MovedRenamed f (?nm k)) s1"
    let ?R = "R @ [(?nm k, info)]"
    have j0k: "j0 \<le> k"
      using k(2) Cons.prems(4) by (meson not_le)
    have 1: "dirs ?s1 EXTRACTED_TEXT_FOLDER = Some (Ds @ Es)"
      and 3: "dirs ?s1 (Folder r) = Some ?R"
      using k(4) by simp_all
    have 2: "distinct (map fst (Ds @ Es))" using Cons.prems(2) by simp
    have 4: "\<forall>i<Suc k. ?nm i \<in> fst ` set ?R"
      using k(3) by (auto simp: less_Suc_eq)
    from Cons.IH [OF 1 2 3 4, of "c + 1"] obtain ks s' where ih:
      "update_files ?d ?t ?m r (map fst Es) (c + 1, ?s1) = (c + 1 + length (filter is_txt Es), s')"
      "length ks = length (filter is_txt Es)" "sorted_wrt (<) ks" "\<forall>k'\<in>set ks. Suc k \<le> k'"
      "\<forall>i<length ks. ?nm (ks ! i) \<notin> fst ` set ?R \<union> ?nm ` set (take i ks) \<and>
         (\<forall>j<ks ! i. ?nm j \<in> fst ` set ?R \<union> ?nm ` set (take i ks))"
      "dirs s' EXTRACTED_TEXT_FOLDER = Some (Ds @ filter (\<lambda>e. \<not> is_txt e) Es)"
      "dirs s' (Folder r) = Some (?R @ map2 (\<lambda>k e. (?nm k, snd e)) ks (filter is_txt Es))"
      "\<forall>d. d \<noteq> EXTRACTED_TEXT_FOLDER \<and> d \<noteq> Folder r \<longrightarrow> dirs s' d = dirs ?s1 d"
      "messages s' = messages ?s1 @ map2 (\<lambda>k e. MovedRenamed (fst e) (?nm k)) ks (filter is_txt Es)"
      by blast
    let ?ks = "k # ks"
    have a: "update_files ?d ?t ?m r (map fst (e # Es)) (c, s) = (c + length (filter is_txt (e # Es)), s')"
      using ih(1) k(1) True by (simp add: e)
    have b: "length ?ks = length (filter is_txt (e # Es))" using ih(2) True by simp
    have c: "sorted_wrt (<) ?ks" using ih(3,4) by auto
    have d: "\<forall>k'\<in>set ?ks. j0 \<le> k'" using ih(4) j0k by auto
    have g: "\<forall>i<length ?ks. ?nm (?ks ! i) \<notin> fst ` set R \<union> ?nm ` set (take i ?ks) \<and>
         (\<forall>j<?ks ! i. ?nm j \<in> fst ` set R \<union> ?nm ` set (take i ?ks))"
    proof (intro allI impI)
      fix i assume i: "i < length ?ks"
      show "?nm (?ks ! i) \<notin> fst ` set R \<union> ?nm ` set (take i ?ks) \<and>
         (\<forall>j<?ks ! i. ?nm j \<in> fst ` set R \<union> ?nm ` set (take i ?ks))"
      proof (cases i)
        case 0
        then show ?thesis using k(2,3) by simp
      next
        case (Suc i')
        with i have "i' < length ks" by simp
        with ih(5) have "?nm (ks ! i') \<notin> fst ` set ?R \<union> ?nm ` set (take i' ks) \<and>
           (\<forall>j<ks ! i'. ?nm j \<in> fst ` set ?R \<union> ?nm ` set (take i' ks))"
          by blast
        moreover have "fst ` set ?R \<union> ?nm ` set (take i' ks) = fst ` set R \<union> ?nm ` set (take i ?ks)"
          using Suc by auto
        ultimately show ?thesis using Suc by simp
      qed
    qed
    have h1: "dirs s' EXTRACTED_TEXT_FOLDER = Some (Ds @ filter (\<lambda>e. \<not> is_txt e) (e # Es))"
      using ih(6) True by simp
    have h2: "dirs s' (Folder r) = Some (R @ map2 (\<lambda>k e. (?nm k, snd e)) ?ks (filter is_txt (e # Es)))"
      using ih(7) True by (simp add: e)
    have h3: "\<forall>d. d \<noteq> EXTRACTED_TEXT_FOLDER \<and> d \<noteq> Folder r \<longrightarrow> dirs s' d = dirs s d"
      using ih(8) k(4) by simp
    have m: "messages s' = messages s @ map2 (\<lambda>k e. MovedRenamed (fst e) (?nm k)) ?ks (filter is_txt (e # Es))"
      using ih(9) k(5) True by (simp add: e)
    from a b c d g h1 h2 h3 m show ?thesis
      by (intro exI [of _ ?ks] exI [of _ s']) blast
  qed
qed

text \<open>
  The names as the specification gives them: the base name
  \<open>INVC_<DDMMYYYY>_<HHMMSS>_<Mon_YY>.txt\<close> for 0, and the suffix \<open>_k\<close> before the
  extension for \<open>k\<close> from 1 on.
\<close>

definition repository_name :: "datetime \<Rightarrow> nat \<Rightarrow> string" where
  "repository_name t k =
     (if k = 0 then stem_of t @ ''.txt'' else stem_of t @ ''_'' @ str_nat k @ ''.txt'')"

lemma probe_repository_name: "probe (stem_of t @ ''.txt'') k = repository_name t k"
  by (simp add: probe_def repository_name_def numbered_plain stem_no_dot)

lemma repository_name_inj: "repository_name t k = repository_name t k' \<Longrightarrow> k = k'"
  using probe_inj [OF stem_no_dot, of t k k'] by (simp add: probe_repository_name)

lemma sorted_wrt_less_distinct: "sorted_wrt (<) (ks :: nat list) \<Longrightarrow> distinct ks"
  by (induction ks) auto

lemma update_repository_entries:
  assumes "dirs s EXTRACTED_TEXT_FOLDER = Some E"
    and "distinct (map fst E)"
    and "dirs s (Folder r) = Some R"
  shows "\<exists>ks s'.
      update_repository env r s = Inr s' \<and>
      length ks = length (filter is_txt E) \<and>
      sorted_wrt (<) ks \<and>
      distinct (map (repository_name (now env)) ks) \<and>
      (\<forall>i<length ks.
         repository_name (now env) (ks ! i) \<notin>
           fst ` set R \<union> repository_name (now env) ` set (take i ks) \<and>
         (\<forall>j<ks ! i. repository_name (now env) j \<in>
           fst ` set R \<union> repository_name (now env) ` set (take i ks))) \<and>
      dirs s' (Folder r) =
        Some (R @ map2 (\<lambda>k e. (repository_name (now env) k, snd e)) ks (filter is_txt E)) \<and>
      dirs s' EXTRACTED_TEXT_FOLDER = Some (filter (\<lambda>e. \<not> is_txt e) E) \<and>
      messages s' = messages s @ [UpdatingRepository r] @
        map2 (\<lambda>k e. MovedRenamed (fst e) (repository_name (now env) k)) ks (filter is_txt E) @
        [MovedRenamedCount (length (filter is_txt E))]"
proof -
  let ?s0 = "log (UpdatingRepository r) s"
  let ?t = "now env"
  have 1: "dirs ?s0 EXTRACTED_TEXT_FOLDER = Some ([] @ E)" using assms(1) by simp
  have 2: "distinct (map fst ([] @ E))" using assms(2) by simp
  have 3: "dirs ?s0 (Folder r) = Some R" using assms(3) by simp
  have 4: "\<forall>i<0. probe (stem_of ?t @ ''.txt'') i \<in> fst ` set R" by simp
  from update_files_entries [OF 1 2 3 4, of 0] obtain ks s1 where u:
    "update_files (strftime_dmY ?t) (strftime_HMS ?t) (strftime_b_y ?t) r (map fst E) (0, ?s0) =
       (0 + length (filter is_txt E), s1)"
    "length ks = length (filter is_txt E)" "sorted_wrt (<) ks"
    "\<forall>i<length ks.
         probe (stem_of ?t @ ''.txt'') (ks ! i) \<notin>
           fst ` set R \<union> probe (stem_of ?t @ ''.txt'') ` set (take i ks) \<and>
         (\<forall>j<ks ! i. probe (stem_of ?t @ ''.txt'') j \<in>
           fst ` set R \<union> probe (stem_of ?t @ ''.txt'') ` set (take i ks))"
    "dirs s1 EXTRACTED_TEXT_FOLDER = Some ([] @ filter (\<lambda>e. \<not> is_txt e) E)"
    "dirs s1 (Folder r) =
        Some (R @ map2 (\<lambda>k e. (probe (stem_of ?t @ ''.txt'') k, snd e)) ks (filter is_txt E))"
    "messages s1 = messages ?s0 @
        map2 (\<lambda>k e. MovedRenamed (fst e) (probe (stem_of ?t @ ''.txt'') k)) ks (filter is_txt E)"
    by blast
  let ?s' = "log (MovedRenamedCount (length (filter is_txt E))) s1"
  have p: "probe (stem_of ?t @ ''.txt'') = repository_name ?t"
    by (rule ext) (rule probe_repository_name)
  have "listdir ?s0 EXTRACTED_TEXT_FOLDER = Inr (map fst E)"
    using assms(1) by (simp add: listdir_def)
  then have a: "update_repository env r s = Inr ?s'"
    using u(1) by (simp add: update_repository_def Let_def)
  have "inj (repository_name ?t)"
    by (rule injI) (rule repository_name_inj)
  then have d: "distinct (map (repository_name ?t) ks)"
    using sorted_wrt_less_distinct [OF u(3)] by (simp add: distinct_map inj_on_def)
  from a u(2-7) d show ?thesis
    unfolding p by (intro exI [of _ ks] exI [of _ ?s']) simp
qed

text \<open>
  C4. The updater on a repository \<open>R\<close> and the extracted texts \<open>E\<close>: the text files of
  \<open>E\<close>, in the order of the listing, go to the end of the repository under the names
  numbered \<open>ks\<close>. Each number is the first whose name is free at that moment: its name is
  neither in \<open>R\<close> nor given earlier in the run, and the names of all smaller numbers
  are. So the numbers increase strictly and the names are pairwise different.
\<close>

theorem update_repository_names:
  assumes "dirs s EXTRACTED_TEXT_FOLDER = Some E"
    and "distinct (map fst E)"
    and "dirs s (Folder r) = Some R"
  shows "\<exists>ks s'.
      update_repository env r s = Inr s' \<and>
      length ks = length (filter is_txt E) \<and>
      sorted_wrt (<) ks \<and>
      distinct (map (repository_name (now env)) ks) \<and>
      (\<forall>i<length ks.
         repository_name (now env) (ks ! i) \<notin>
           fst ` set R \<union> repository_name (now env) ` set (take i ks) \<and>
         (\<forall>j<ks ! i. repository_name (now env) j \<in>
           fst ` set R \<union> repository_name (now env) ` set (take i ks))) \<and>
      dirs s' (Folder r) =
        Some (R @ map2 (\<lambda>k e. (repository_name (now env) k, snd e)) ks (filter is_txt E)) \<and>
      dirs s' EXTRACTED_TEXT_FOLDER = Some (filter (\<lambda>e. \<not> is_txt e) E) \<and>
      messages s' = messages s @ [UpdatingRepository r] @
        map2 (\<lambda>k e. MovedRenamed (fst e) (repository_name (now env) k)) ks (filter is_txt E) @
        [MovedRenamedCount (length (filter is_txt E))]"
  using assms by (rule update_repository_entries)

lemmas time_defs = strftime_dmY_def strftime_HMS_def strftime_b_y_def zfill_def str_nat.simps
  digit_def month_abbr_def month_number_def base_name_def replace_def replace_from.simps
  resolve_name.simps

definition filing_example :: state where
  "filing_example =
     empty_buckets\<lparr>dirs := (dirs empty_buckets)
       (Folder ''repo'' \<mapsto>
          [(''INVC_07032025_090503_Mar_25.txt'', plain_file ''first'' True),
           (''INVC_07032025_090503_Mar_25_1.txt'', plain_file ''second'' True)],
        EXTRACTED_TEXT_FOLDER \<mapsto>
          [(''a.txt'', plain_file ''third'' True),
           (''b.TXT'', plain_file ''fourth'' True),
           (''c.txt'', plain_file ''fifth'' True)])\<rparr>"

lemma filing_example_run:
  "map_sum id (\<lambda>s. (map_option (map fst) (dirs s (Folder ''repo'')), messages s))
     (update_repository plain_env ''repo'' filing_example) =
   Inr (Some [''INVC_07032025_090503_Mar_25.txt'', ''INVC_07032025_090503_Mar_25_1.txt'',
              ''INVC_07032025_090503_Mar_25_2.txt'', ''INVC_07032025_090503_Mar_25_3.txt'',
              ''INVC_07032025_090503_Mar_25_4.txt''],
        [UpdatingRepository ''repo'',
         MovedRenamed ''a.txt'' ''INVC_07032025_090503_Mar_25_2.txt'',
         MovedRenamed ''b.TXT'' ''INVC_07032025_090503_Mar_25_3.txt'',
         MovedRenamed ''c.txt'' ''INVC_07032025_090503_Mar_25_4.txt'',
         MovedRenamedCount 3])"
  by (simp add: update_repository_def update_file_def filing_example_def empty_buckets_def
        plain_env_def time_defs name_defs os_defs Let_def)


theorem update_repository_names_witness:
  "\<exists>ks s'. update_repository plain_env ''repo'' filing_example = Inr s' \<and>
     length ks = 3 \<and> sorted_wrt (<) ks \<and>
     distinct (map (repository_name (now plain_env)) ks) \<and>
     map_option (map fst) (dirs s' (Folder ''repo'')) =
       Some [''INVC_07032025_090503_Mar_25.txt'', ''INVC_07032025_090503_Mar_25_1.txt'',
             ''INVC_07032025_090503_Mar_25_2.txt'', ''INVC_07032025_090503_Mar_25_3.txt'',
             ''INVC_07032025_090503_Mar_25_4.txt''] \<and>
     messages s' =
       [UpdatingRepository ''repo'',
        MovedRenamed ''a.txt'' ''INVC_07032025_090503_Mar_25_2.txt'',
        MovedRenamed ''b.TXT'' ''INVC_07032025_090503_Mar_25_3.txt'',
        MovedRenamed ''c.txt'' ''INVC_07032025_090503_Mar_25_4.txt'',
        MovedRenamedCount 3]"
proof -
  let ?E = "[(''a.txt'', plain_file ''third'' True), (''b.TXT'', plain_file ''fourth'' True),
             (''c.txt'', plain_file ''fifth'' True)]"
  let ?R = "[(''INVC_07032025_090503_Mar_25.txt'', plain_file ''first'' True),
             (''INVC_07032025_090503_Mar_25_1.txt'', plain_file ''second'' True)]"
  have 1: "dirs filing_example EXTRACTED_TEXT_FOLDER = Some ?E"
    by (simp add: filing_example_def)
  have 2: "distinct (map fst ?E)" by simp
  have 3: "dirs filing_example (Folder ''repo'') = Some ?R"
    by (simp add: filing_example_def)
  have n: "length (filter is_txt ?E) = 3"
    by (simp add: is_txt_def name_defs)
  from update_repository_names [OF 1 2 3, of plain_env] obtain ks s' where
    r: "update_repository plain_env ''repo'' filing_example = Inr s'"
    and k: "length ks = length (filter is_txt ?E)" "sorted_wrt (<) ks"
      "distinct (map (repository_name (now plain_env)) ks)"
    by blast
  from filing_example_run r have
    "map_option (map fst) (dirs s' (Folder ''repo'')) =
       Some [''INVC_07032025_090503_Mar_25.txt'', ''INVC_07032025_090503_Mar_25_1.txt'',
             ''INVC_07032025_090503_Mar_25_2.txt'', ''INVC_07032025_090503_Mar_25_3.txt'',
             ''INVC_07032025_090503_Mar_25_4.txt'']"
    "messages s' =
       [UpdatingRepository ''repo'',
        MovedRenamed ''a.txt'' ''INVC_07032025_090503_Mar_25_2.txt'',
        MovedRenamed ''b.TXT'' ''INVC_07032025_090503_Mar_25_3.txt'',
        MovedRenamed ''c.txt'' ''INVC_07032025_090503_Mar_25_4.txt'',
        MovedRenamedCount 3]"
    by simp_all
  with r k n show ?thesis by (intro exI [of _ ks] exI [of _ s']) simp
qed

section \<open>The fingerprints of the repository\<close>

text \<open>
  The set the specification describes: the fingerprints of the text files of the
  repository that can be read and hashed.
\<close>

definition repo_fingerprints :: "env \<Rightarrow> folder \<Rightarrow> string set" where
  "repo_fingerprints env R =
     {h. \<exists>e\<in>set R. is_txt e \<and> readable (snd e) \<and> sha256_hash (ucd env) (content (snd e)) = Inr h}"

lemma repo_fingerprints_Nil [simp]: "repo_fingerprints env [] = {}"
  by (simp add: repo_fingerprints_def)

lemma repo_fingerprints_Cons:
  "repo_fingerprints env (e # R) =
     (if is_txt e \<and> readable (snd e)
      then (case sha256_hash (ucd env) (content (snd e)) of Inl x \<Rightarrow> {} | Inr h \<Rightarrow> {h})
      else {}) \<union> repo_fingerprints env R"
  by (auto simp: repo_fingerprints_def split: sum.splits)

lemma read_repo_file_hashes:
  assumes "lookup s (Folder r) (fst e) = Some (snd e)"
  shows "fst (read_repo_file env r (fst e) (H, s)) = H \<union> repo_fingerprints env [e]"
    and "dirs (snd (read_repo_file env r (fst e) (H, s))) = dirs s"
  using assms
  by (auto simp: read_repo_file_def repo_fingerprints_Cons is_txt_def read_text_def split: sum.splits)

lemma read_repo_files_hashes:
  assumes "\<forall>e\<in>set Rs. lookup s (Folder r) (fst e) = Some (snd e)"
  shows "fst (read_repo_files env r (map fst Rs) (H, s)) = H \<union> repo_fingerprints env Rs"
  using assms
proof (induction Rs arbitrary: H s)
  case Nil
  then show ?case by simp
next
  case (Cons e Rs)
  obtain H1 s1 where 1: "read_repo_file env r (fst e) (H, s) = (H1, s1)"
    by (cases "read_repo_file env r (fst e) (H, s)")
  from Cons.prems have l: "lookup s (Folder r) (fst e) = Some (snd e)" by simp
  have H1: "H1 = H \<union> repo_fingerprints env [e]" and d: "dirs s1 = dirs s"
    using read_repo_file_hashes [OF l, of env H] 1 by simp_all
  have "\<forall>e\<in>set Rs. lookup s1 (Folder r) (fst e) = Some (snd e)"
    using Cons.prems d by (simp add: lookup_def)
  from Cons.IH [OF this, of H1] have "fst (read_repo_files env r (map fst Rs) (H1, s1)) = H1 \<union> repo_fingerprints env Rs" .
  with 1 H1 show ?case
    by (simp add: repo_fingerprints_Cons [of env e Rs] repo_fingerprints_Cons [of env e "[]"] Un_assoc)
qed

lemma lookup_distinct:
  "dirs s d = Some R \<Longrightarrow> distinct (map fst R) \<Longrightarrow> \<forall>e\<in>set R. lookup s d (fst e) = Some (snd e)"
  by (auto simp: lookup_def)

lemma read_repo_files_snapshot:
  assumes "dirs s (Folder r) = Some R" "distinct (map fst R)"
  shows "fst (read_repo_files env r (map fst R) ({}, s)) = repo_fingerprints env R"
  using read_repo_files_hashes [OF lookup_distinct [OF assms], of env "{}"] by simp


lemma move_dirs_other:
  "move d n d' n' s = Inr s' \<Longrightarrow> e \<noteq> d \<Longrightarrow> e \<noteq> d' \<Longrightarrow> dirs s' e = dirs s e"
  by (auto simp: move_def split: option.splits)


















section \<open>The frames of the other stages\<close>

lemma move_frame_in: "move d n d' n' s = Inr s' \<Longrightarrow> d \<noteq> d' \<Longrightarrow> d \<in> D \<Longrightarrow> d' \<in> D \<Longrightarrow> frame D s s'"
  using move_frame [of d n d' n' s s'] by (auto intro: frame_mono)

lemma remove_frame_in: "remove d n s = Inr s' \<Longrightarrow> d \<in> D \<Longrightarrow> frame D s s'"
  using remove_frame [of d n s s'] by (auto intro: frame_mono)

lemma copy2_frame_in: "copy2 src d n s = Inr s' \<Longrightarrow> d \<in> D \<Longrightarrow> frame D s s'"
  using copy2_frame [of src d n s s'] by (auto intro: frame_mono)

lemma write_text_frame_in: "write_text t d n x s = (r, s') \<Longrightarrow> d \<in> D \<Longrightarrow> frame D s s'"
  using write_text_frame [of t d n x s r s'] by (auto intro: frame_mono)

subsection \<open>\<open>ensure_folders\<close>\<close>

lemma lookup_makedirs [simp]: "lookup (makedirs d s) e n = lookup s e n"
  by (auto simp: makedirs_def lookup_def split: option.splits)

lemma dirs_makedirs:
  "dirs (makedirs d s) e = (if e = d \<and> dirs s d = None then Some [] else dirs s e)"
  by (auto simp: makedirs_def split: option.splits)

lemma messages_makedirs [simp]: "messages (makedirs d s) = messages s"
  by (auto simp: makedirs_def split: option.splits)

lemma ensure_folders_facts:
  "lookup (ensure_folders s) e n = lookup s e n"
  "messages (ensure_folders s) = messages s"
  "dirs (ensure_folders s) (Folder r) = dirs s (Folder r)"
  "dirs (ensure_folders s) MAIN_PDF_FOLDER \<noteq> None"
  "dirs (ensure_folders s) EXTRACTED_TEXT_FOLDER \<noteq> None"
  "dirs (ensure_folders s) EXCEPTION_FOLDER \<noteq> None"
  "dirs (ensure_folders s) UNIQUE_INVOICES_FOLDER \<noteq> None"
  "dirs (ensure_folders s) DUPLICATES_INVOICES_FOLDER \<noteq> None"
  by (simp_all add: ensure_folders_def dirs_makedirs)

subsection \<open>Extraction\<close>

lemma extract_file_frame:
  "extract_file env f (ce, cx, s) = (ce', cx', s') \<Longrightarrow>
     frame {EXTRACTED_TEXT_FOLDER, MAIN_PDF_FOLDER, EXCEPTION_FOLDER} s s'"
  by (auto simp: extract_file_def split: if_splits prod.splits option.splits sum.splits
        intro: move_frame_in write_text_frame_in)

lemma extract_files_frame:
  "extract_files env fs (ce, cx, s) = (ce', cx', s') \<Longrightarrow>
     frame {EXTRACTED_TEXT_FOLDER, MAIN_PDF_FOLDER, EXCEPTION_FOLDER} s s'"
proof (induction fs arbitrary: ce cx s)
  case Nil
  then show ?case by simp
next
  case (Cons f fs)
  obtain ce1 cx1 s1 where 1: "extract_file env f (ce, cx, s) = (ce1, cx1, s1)"
    by (cases "extract_file env f (ce, cx, s)") auto
  with Cons.prems have "extract_files env fs (ce1, cx1, s1) = (ce', cx', s')" by simp
  from Cons.IH [OF this] extract_file_frame [OF 1] show ?case by (blast intro: frame_trans)
qed

lemma extract_texts_frame:
  "extract_texts env s = Inr s' \<Longrightarrow> frame {EXTRACTED_TEXT_FOLDER, MAIN_PDF_FOLDER, EXCEPTION_FOLDER} s s'"
  by (auto simp: extract_texts_def Let_def split: sum.splits prod.splits dest: extract_files_frame)

lemma extract_texts_ok:
  "dirs s MAIN_PDF_FOLDER \<noteq> None \<Longrightarrow> \<exists>s'. extract_texts env s = Inr s'"
  by (auto simp: extract_texts_def Let_def listdir_def split: sum.splits prod.splits option.splits)

subsection \<open>Cleanup\<close>

lemma cleanup_file_frame: "frame {MAIN_PDF_FOLDER, EXCEPTION_FOLDER} s (cleanup_file f s)"
  by (auto simp: cleanup_file_def split: sum.splits intro: move_frame_in)

lemma cleanup_files_frame: "frame {MAIN_PDF_FOLDER, EXCEPTION_FOLDER} s (cleanup_files fs s)"
proof (induction fs arbitrary: s)
  case Nil
  show ?case by simp
next
  case (Cons f fs)
  from Cons [of "cleanup_file f s"] cleanup_file_frame [of s f] show ?case
    by (auto intro: frame_trans)
qed

lemma cleanup_main_pdf_folder_frame:
  "cleanup_main_pdf_folder s = Inr s' \<Longrightarrow> frame {MAIN_PDF_FOLDER, EXCEPTION_FOLDER} s s'"
  using cleanup_files_frame [of "log CleaningLeftover s"]
  by (auto simp: cleanup_main_pdf_folder_def Let_def split: sum.splits if_splits)

lemma cleanup_main_pdf_folder_ok:
  "dirs s MAIN_PDF_FOLDER \<noteq> None \<Longrightarrow> \<exists>s'. cleanup_main_pdf_folder s = Inr s'"
  by (auto simp: cleanup_main_pdf_folder_def Let_def listdir_def split: option.splits)

subsection \<open>Local deduplication\<close>

lemma dedup_file_frame:
  "dedup_file env f (seen, rc, s) = (seen', rc', s') \<Longrightarrow>
     frame {EXTRACTED_TEXT_FOLDER, MAIN_PDF_FOLDER, DUPLICATES_INVOICES_FOLDER} s s'"
proof (cases "read_text s EXTRACTED_TEXT_FOLDER f")
  case (Inl e)
  assume "dedup_file env f (seen, rc, s) = (seen', rc', s')"
  with Inl show ?thesis by (auto simp: dedup_file_def)
next
  case (Inr t)
  assume a: "dedup_file env f (seen, rc, s) = (seen', rc', s')"
  let ?D = "{EXTRACTED_TEXT_FOLDER, MAIN_PDF_FOLDER, DUPLICATES_INVOICES_FOLDER}"
  show ?thesis
  proof (cases "sha256_hash (ucd env) t")
    case (Inl e)
    with Inr a show ?thesis by (auto simp: dedup_file_def)
  next
    case h: (Inr h)
    show ?thesis
    proof (cases "seen h")
      case None
      with Inr h a show ?thesis by (auto simp: dedup_file_def)
    next
      case (Some first)
      show ?thesis
      proof (cases "remove EXTRACTED_TEXT_FOLDER f s")
        case (Inl e)
        with Inr h Some a show ?thesis by (auto simp: dedup_file_def)
      next
        case s1: (Inr s1)
        have f1: "frame ?D s s1" using s1 by (rule remove_frame_in) simp
        let ?p = "fst (splitext f) @ ''.pdf''"
        let ?s2 = "log (RemovedDuplicateText f first) s1"
        show ?thesis
        proof (cases "path_exists ?s2 MAIN_PDF_FOLDER ?p")
          case False
          with Inr h Some s1 a have "s' = ?s2" by (auto simp: dedup_file_def Let_def)
          with f1 show ?thesis by simp
        next
          case True
          show ?thesis
          proof (cases "move MAIN_PDF_FOLDER ?p DUPLICATES_INVOICES_FOLDER ?p ?s2")
            case (Inl e)
            with Inr h Some s1 True a have "s' = log (ErrorDeduplication f e) ?s2"
              by (auto simp: dedup_file_def Let_def)
            with f1 show ?thesis by simp
          next
            case s3: (Inr s3)
            with Inr h Some s1 True a have s': "s' = log (MovedDuplicatePdf ?p) s3"
              by (auto simp: dedup_file_def Let_def)
            have "frame ?D ?s2 s3" using s3 by (rule move_frame_in) simp_all
            then have "frame ?D s1 s3" by simp
            with f1 have "frame ?D s s3" by (rule frame_trans)
            with s' show ?thesis by simp
          qed
        qed
      qed
    qed
  qed
qed

lemma dedup_files_frame:
  "dedup_files env fs (seen, rc, s) = (seen', rc', s') \<Longrightarrow>
     frame {EXTRACTED_TEXT_FOLDER, MAIN_PDF_FOLDER, DUPLICATES_INVOICES_FOLDER} s s'"
proof (induction fs arbitrary: seen rc s)
  case Nil
  then show ?case by simp
next
  case (Cons f fs)
  obtain seen1 rc1 s1 where 1: "dedup_file env f (seen, rc, s) = (seen1, rc1, s1)"
    by (cases "dedup_file env f (seen, rc, s)") auto
  with Cons.prems have "dedup_files env fs (seen1, rc1, s1) = (seen', rc', s')" by simp
  from Cons.IH [OF this] dedup_file_frame [OF 1] show ?case by (blast intro: frame_trans)
qed

lemma deduplicate_text_files_frame:
  "deduplicate_text_files env s = Inr s' \<Longrightarrow>
     frame {EXTRACTED_TEXT_FOLDER, MAIN_PDF_FOLDER, DUPLICATES_INVOICES_FOLDER} s s'"
  by (auto simp: deduplicate_text_files_def Let_def split: sum.splits prod.splits dest: dedup_files_frame)

subsection \<open>Comparison and filing\<close>

lemma cross_compare_frame:
  assumes "cross_compare_with_repository env r s = Inr s'"
  shows "frame {EXTRACTED_TEXT_FOLDER, MAIN_PDF_FOLDER, DUPLICATES_INVOICES_FOLDER, UNIQUE_INVOICES_FOLDER} s s'"
proof -
  let ?D = "{EXTRACTED_TEXT_FOLDER, MAIN_PDF_FOLDER, DUPLICATES_INVOICES_FOLDER, UNIQUE_INVOICES_FOLDER}"
  from assms obtain repo_names H s1 names cu cd s2 xs where
    rr: "read_repo_files env r repo_names ({}, log (CrossComparing r) s) = (H, s1)"
    and cf: "compare_files env H (filter (\<lambda>f. endswith (lower_name f) ''.txt'') names) (0, 0, s1) = (cu, cd, s2)"
    and s': "s' = log (CrossComparisonComplete cu cd) (copy_exceptions xs s2)"
    by (rule cross_compare_Inr)
  have "dirs s1 = dirs s" using read_repo_files_dirs [OF rr] by simp
  then have "frame ?D s s1" by (simp add: frame_def)
  moreover have "frame ?D s1 s2" by (rule compare_files_effect(1) [OF cf])
  moreover have "frame ?D s2 (copy_exceptions xs s2)"
    using copy_exceptions_frame [of s2 xs] by (rule frame_mono) simp
  ultimately show ?thesis using s' by (auto intro: frame_trans)
qed

lemma update_file_frame:
  "update_file d t m r f (c, s) = (c', s') \<Longrightarrow> frame {EXTRACTED_TEXT_FOLDER, Folder r} s s'"
  by (auto simp: update_file_def Let_def split: if_splits sum.splits intro: move_frame_in)

lemma update_files_frame:
  "update_files d t m r fs (c, s) = (c', s') \<Longrightarrow> frame {EXTRACTED_TEXT_FOLDER, Folder r} s s'"
proof (induction fs arbitrary: c s)
  case Nil
  then show ?case by simp
next
  case (Cons f fs)
  obtain c1 s1 where 1: "update_file d t m r f (c, s) = (c1, s1)"
    by (cases "update_file d t m r f (c, s)")
  with Cons.prems have "update_files d t m r fs (c1, s1) = (c', s')" by simp
  from Cons.IH [OF this] update_file_frame [OF 1] show ?case by (blast intro: frame_trans)
qed

lemma update_repository_frame:
  "update_repository env r s = Inr s' \<Longrightarrow> frame {EXTRACTED_TEXT_FOLDER, Folder r} s s'"
  by (auto simp: update_repository_def Let_def split: sum.splits prod.splits dest: update_files_frame)

section \<open>Names that are not PDF names\<close>

definition is_pdf_name :: "string \<Rightarrow> bool" where
  "is_pdf_name n \<longleftrightarrow> endswith (lower_name n) ''.pdf''"

lemma is_pdf_name_append: "is_pdf_name (x @ ''.pdf'')"
  by (simp add: is_pdf_name_def endswith_def lower_name_def lower_char_def)

lemma move_lookup_other:
  "move d n d' n' s = Inr s' \<Longrightarrow> d \<noteq> d' \<Longrightarrow> m \<noteq> n' \<Longrightarrow> lookup s' d' m = lookup s d' m"
  using move_Inr [of d n d' n' s s'] by simp

lemma move_lookup_third:
  "move d n d' n' s = Inr s' \<Longrightarrow> e \<noteq> d \<Longrightarrow> e \<noteq> d' \<Longrightarrow> lookup s' e m = lookup s e m"
  by (simp add: lookup_def move_dirs_other)

lemma extract_file_exception:
  assumes "extract_file env f (ce, cx, s) = (ce', cx', s')" "\<not> is_pdf_name n"
  shows "lookup s' EXCEPTION_FOLDER n = lookup s EXCEPTION_FOLDER n"
proof (cases "is_pdf_name f")
  case False
  with assms show ?thesis by (simp add: extract_file_def is_pdf_name_def)
next
  case True
  with assms(2) have ne: "n \<noteq> f" by auto
  obtain t m where x: "extract_text_from_pdf env (lookup s MAIN_PDF_FOLDER f) = (t, m)"
    by (cases "extract_text_from_pdf env (lookup s MAIN_PDF_FOLDER f)")
  show ?thesis
  proof (cases "t = []")
    case False
    obtain r s1 where w: "write_text (clock env) EXTRACTED_TEXT_FOLDER (fst (splitext f) @ ''.txt'') t s = (r, s1)"
      by (cases "write_text (clock env) EXTRACTED_TEXT_FOLDER (fst (splitext f) @ ''.txt'') t s")
    then have "lookup s1 EXCEPTION_FOLDER n = lookup s EXCEPTION_FOLDER n"
      using write_text_facts [OF w] by simp
    with assms(1) True x False w show ?thesis
      by (cases r) (auto simp: extract_file_def is_pdf_name_def)
  next
    case e: True
    show ?thesis
    proof (cases "move MAIN_PDF_FOLDER f EXCEPTION_FOLDER f s")
      case (Inl err)
      with assms(1) True x e show ?thesis by (auto simp: extract_file_def is_pdf_name_def)
    next
      case (Inr s1)
      with assms(1) True x e have "s' = log (ExtractionFailedMoved f) s1"
        by (auto simp: extract_file_def is_pdf_name_def)
      with move_lookup_other [OF Inr _ ne] show ?thesis by simp
    qed
  qed
qed

lemma extract_files_exception:
  assumes "extract_files env fs (ce, cx, s) = (ce', cx', s')" "\<not> is_pdf_name n"
  shows "lookup s' EXCEPTION_FOLDER n = lookup s EXCEPTION_FOLDER n"
  using assms(1)
proof (induction fs arbitrary: ce cx s)
  case Nil
  then show ?case by simp
next
  case (Cons f fs)
  obtain ce1 cx1 s1 where 1: "extract_file env f (ce, cx, s) = (ce1, cx1, s1)"
    by (cases "extract_file env f (ce, cx, s)") auto
  with Cons.prems have "extract_files env fs (ce1, cx1, s1) = (ce', cx', s')" by simp
  from Cons.IH [OF this] extract_file_exception [OF 1 assms(2)] show ?case by simp
qed

lemma extract_texts_exception:
  "extract_texts env s = Inr s' \<Longrightarrow> \<not> is_pdf_name n \<Longrightarrow>
     lookup s' EXCEPTION_FOLDER n = lookup s EXCEPTION_FOLDER n"
  by (auto simp: extract_texts_def Let_def split: sum.splits prod.splits dest: extract_files_exception)

lemma cleanup_file_exception:
  "n \<noteq> f \<Longrightarrow> lookup (cleanup_file f s) EXCEPTION_FOLDER n = lookup s EXCEPTION_FOLDER n"
  by (auto simp: cleanup_file_def split: sum.splits dest: move_lookup_other)

lemma cleanup_files_exception:
  "n \<notin> set fs \<Longrightarrow> lookup (cleanup_files fs s) EXCEPTION_FOLDER n = lookup s EXCEPTION_FOLDER n"
  by (induction fs arbitrary: s) (simp_all add: cleanup_file_exception)

lemma cleanup_main_pdf_folder_exception:
  assumes "cleanup_main_pdf_folder s = Inr s'" "\<not> is_pdf_name n"
  shows "lookup s' EXCEPTION_FOLDER n = lookup s EXCEPTION_FOLDER n"
proof -
  from assms(1) obtain names where n: "listdir s MAIN_PDF_FOLDER = Inr names"
    by (cases "listdir s MAIN_PDF_FOLDER") (simp_all add: cleanup_main_pdf_folder_def)
  let ?l = "filter (\<lambda>f. endswith (lower_name f) ''.pdf'') names"
  have "n \<notin> set ?l" using assms(2) by (simp add: is_pdf_name_def)
  then have "lookup (cleanup_files ?l (log CleaningLeftover s)) EXCEPTION_FOLDER n = lookup s EXCEPTION_FOLDER n"
    by (simp add: cleanup_files_exception)
  with assms(1) n show ?thesis
    by (auto simp: cleanup_main_pdf_folder_def Let_def split: if_splits)
qed

lemma compare_file_steps:
  assumes "compare_file env H f (cu, cd, s) = (cu', cd', s')"
  shows "dirs s' = dirs s \<or>
         (\<exists>s1. move MAIN_PDF_FOLDER (fst (splitext f) @ ''.pdf'') UNIQUE_INVOICES_FOLDER
                 (fst (splitext f) @ ''.pdf'') s = Inr s1 \<and> dirs s' = dirs s1) \<or>
         (\<exists>s1. (s1 = s \<or> move MAIN_PDF_FOLDER (fst (splitext f) @ ''.pdf'') DUPLICATES_INVOICES_FOLDER
                 (fst (splitext f) @ ''.pdf'') s = Inr s1) \<and>
               (dirs s' = dirs s1 \<or> (\<exists>s2. remove EXTRACTED_TEXT_FOLDER f s1 = Inr s2 \<and> dirs s' = dirs s2)))"
proof (cases "read_text s EXTRACTED_TEXT_FOLDER f")
  case (Inl e)
  with assms show ?thesis by (auto simp: compare_file_def)
next
  case (Inr t)
  show ?thesis
  proof (cases "sha256_hash (ucd env) t")
    case (Inl e)
    with Inr assms show ?thesis by (auto simp: compare_file_def)
  next
    case h: (Inr h)
    let ?p = "fst (splitext f) @ ''.pdf''"
    show ?thesis
    proof (cases "h \<in> H")
      case True
      show ?thesis
      proof (cases "if path_exists s MAIN_PDF_FOLDER ?p
                    then move MAIN_PDF_FOLDER ?p DUPLICATES_INVOICES_FOLDER ?p s else Inr s")
        case (Inl e)
        with Inr h True assms have "dirs s' = dirs s" by (auto simp: compare_file_def Let_def)
        then show ?thesis by simp
      next
        case s1: (Inr s1)
        then have 1: "s1 = s \<or> move MAIN_PDF_FOLDER ?p DUPLICATES_INVOICES_FOLDER ?p s = Inr s1"
          by (auto split: if_splits)
        show ?thesis
        proof (cases "remove EXTRACTED_TEXT_FOLDER f s1")
          case (Inl e)
          with Inr h True s1 assms have "s' = log (ErrorComparing f e) s1"
            by (auto simp: compare_file_def Let_def)
          then have "dirs s' = dirs s1" by simp
          with 1 show ?thesis by blast
        next
          case s2: (Inr s2)
          with Inr h True s1 assms have "s' = log (MovedDuplicateDeletedText ?p) s2"
            by (auto simp: compare_file_def Let_def)
          then have "dirs s' = dirs s2" by simp
          with 1 s2 show ?thesis by blast
        qed
      qed
    next
      case False
      show ?thesis
      proof (cases "path_exists s MAIN_PDF_FOLDER ?p")
        case True
        show ?thesis
        proof (cases "move MAIN_PDF_FOLDER ?p UNIQUE_INVOICES_FOLDER ?p s")
          case (Inl e)
          with Inr h False True assms have "dirs s' = dirs s" by (auto simp: compare_file_def Let_def)
          then show ?thesis by simp
        next
          case s1: (Inr s1)
          with Inr h False True assms have "s' = log (MovedUniquePdf ?p) s1"
            by (auto simp: compare_file_def Let_def)
          then have "dirs s' = dirs s1" by simp
          with s1 show ?thesis by blast
        qed
      next
        case nex: False
        with Inr h False assms have "dirs s' = dirs s" by (auto simp: compare_file_def Let_def)
        then show ?thesis by simp
      qed
    qed
  qed
qed

lemma lookup_cong_dirs: "dirs s' = dirs s \<Longrightarrow> lookup s' d n = lookup s d n"
  by (simp add: lookup_def)

lemma compare_file_unique:
  assumes "compare_file env H f (cu, cd, s) = (cu', cd', s')" "\<not> is_pdf_name n"
  shows "lookup s' UNIQUE_INVOICES_FOLDER n = lookup s UNIQUE_INVOICES_FOLDER n"
proof -
  let ?p = "fst (splitext f) @ ''.pdf''"
  have ne: "n \<noteq> ?p" using assms(2) is_pdf_name_append [of "fst (splitext f)"] by auto
  have m1: "lookup s1 UNIQUE_INVOICES_FOLDER n = lookup s UNIQUE_INVOICES_FOLDER n"
    if "move MAIN_PDF_FOLDER ?p DUPLICATES_INVOICES_FOLDER ?p s = Inr s1" for s1
    using that by (rule move_lookup_third) simp_all
  have m2: "lookup s1 UNIQUE_INVOICES_FOLDER n = lookup s UNIQUE_INVOICES_FOLDER n"
    if "move MAIN_PDF_FOLDER ?p UNIQUE_INVOICES_FOLDER ?p s = Inr s1" for s1
    using that _ ne by (rule move_lookup_other) simp
  have r: "lookup s2 UNIQUE_INVOICES_FOLDER n = lookup s1 UNIQUE_INVOICES_FOLDER n"
    if "remove EXTRACTED_TEXT_FOLDER f s1 = Inr s2" for s1 s2
    using remove_Inr [OF that] by simp
  from compare_file_steps [OF assms(1)] show ?thesis
  proof (elim disjE exE conjE)
    assume "dirs s' = dirs s"
    then show ?thesis by (rule lookup_cong_dirs)
  next
    fix s1 assume "move MAIN_PDF_FOLDER ?p UNIQUE_INVOICES_FOLDER ?p s = Inr s1" "dirs s' = dirs s1"
    then show ?thesis using m2 lookup_cong_dirs by metis
  next
    fix s1 assume "s1 = s" "dirs s' = dirs s1"
    then show ?thesis using lookup_cong_dirs by metis
  next
    fix s1 s2 assume "s1 = s" "remove EXTRACTED_TEXT_FOLDER f s1 = Inr s2" "dirs s' = dirs s2"
    then show ?thesis using r lookup_cong_dirs by metis
  next
    fix s1 assume "move MAIN_PDF_FOLDER ?p DUPLICATES_INVOICES_FOLDER ?p s = Inr s1" "dirs s' = dirs s1"
    then show ?thesis using m1 lookup_cong_dirs by metis
  next
    fix s1 s2 assume "move MAIN_PDF_FOLDER ?p DUPLICATES_INVOICES_FOLDER ?p s = Inr s1"
      "remove EXTRACTED_TEXT_FOLDER f s1 = Inr s2" "dirs s' = dirs s2"
    then show ?thesis using m1 r lookup_cong_dirs by metis
  qed
qed

lemma compare_files_unique:
  assumes "compare_files env H fs (cu, cd, s) = (cu', cd', s')" "\<not> is_pdf_name n"
  shows "lookup s' UNIQUE_INVOICES_FOLDER n = lookup s UNIQUE_INVOICES_FOLDER n"
  using assms(1)
proof (induction fs arbitrary: cu cd s)
  case Nil
  then show ?case by simp
next
  case (Cons f fs)
  obtain cu1 cd1 s1 where cf: "compare_file env H f (cu, cd, s) = (cu1, cd1, s1)"
    by (cases "compare_file env H f (cu, cd, s)") auto
  with Cons.prems have "compare_files env H fs (cu1, cd1, s1) = (cu', cd', s')" by simp
  from Cons.IH [OF this] compare_file_unique [OF cf assms(2)] show ?case by simp
qed

lemma copy_exception_not_pdf:
  "\<not> is_pdf_name n \<Longrightarrow>
     lookup (copy_exception f s) UNIQUE_INVOICES_FOLDER n = lookup s UNIQUE_INVOICES_FOLDER n"
  by (cases "n = f") (simp_all add: copy_exception_other, simp add: copy_exception_def is_pdf_name_def)

lemma copy_exceptions_not_pdf:
  "\<not> is_pdf_name n \<Longrightarrow>
     lookup (copy_exceptions fs s) UNIQUE_INVOICES_FOLDER n = lookup s UNIQUE_INVOICES_FOLDER n"
  by (induction fs arbitrary: s) (simp_all add: copy_exception_not_pdf)

lemma cross_compare_unique:
  assumes "cross_compare_with_repository env r s = Inr s'" "\<not> is_pdf_name n"
  shows "lookup s' UNIQUE_INVOICES_FOLDER n = lookup s UNIQUE_INVOICES_FOLDER n"
proof -
  from assms(1) obtain repo_names H s1 names cu cd s2 xs where
    rr: "read_repo_files env r repo_names ({}, log (CrossComparing r) s) = (H, s1)"
    and cf: "compare_files env H (filter (\<lambda>f. endswith (lower_name f) ''.txt'') names) (0, 0, s1) = (cu, cd, s2)"
    and s': "s' = log (CrossComparisonComplete cu cd) (copy_exceptions xs s2)"
    by (rule cross_compare_Inr)
  have "dirs s1 = dirs s" using read_repo_files_dirs [OF rr] by simp
  then have "lookup s1 UNIQUE_INVOICES_FOLDER n = lookup s UNIQUE_INVOICES_FOLDER n"
    by (simp add: lookup_def)
  with compare_files_unique [OF cf assms(2)] s' assms(2) show ?thesis
    by (simp add: copy_exceptions_not_pdf)
qed

section \<open>The intake when every copy succeeds\<close>

lemma process_file_ok:
  assumes "readable src" "dirs s MAIN_PDF_FOLDER \<noteq> None" "dirs s EXCEPTION_FOLDER \<noteq> None"
  shows "\<exists>p' oc' s'. process_file src f (p, oc, s) = Inr (p', oc', s') \<and>
           frame {MAIN_PDF_FOLDER, EXCEPTION_FOLDER} s s' \<and>
           (\<not> is_pdf_name f \<longrightarrow> lookup s' EXCEPTION_FOLDER f = Some src) \<and>
           (\<forall>n. n \<noteq> f \<longrightarrow> lookup s' EXCEPTION_FOLDER n = lookup s EXCEPTION_FOLDER n)"
proof -
  let ?d = "if endswith (lower_name f) ''.pdf'' then MAIN_PDF_FOLDER else EXCEPTION_FOLDER"
  have "dirs s ?d \<noteq> None" using assms(2,3) by simp
  then obtain s1 where c: "copy2 (Some src) ?d f s = Inr s1"
    using copy2_ok [OF assms(1)] by blast
  note k = copy2_Inr [OF c]
  have fr: "frame {MAIN_PDF_FOLDER, EXCEPTION_FOLDER} s s1"
    using c by (rule copy2_frame_in) simp
  show ?thesis
  proof (cases "endswith (lower_name f) ''.pdf''")
    case True
    with c have "process_file src f (p, oc, s) = Inr (p + 1, oc, s1)"
      by (simp add: process_file_def Let_def)
    with fr k True show ?thesis by (simp add: is_pdf_name_def)
  next
    case False
    with c have "process_file src f (p, oc, s) = Inr (p, oc + 1, log (NonPdfToException f) s1)"
      by (simp add: process_file_def Let_def)
    with fr k False show ?thesis by (simp add: is_pdf_name_def)
  qed
qed

lemma process_files_ok:
  assumes "\<forall>e\<in>set L. readable (snd e)" "dirs s MAIN_PDF_FOLDER \<noteq> None" "dirs s EXCEPTION_FOLDER \<noteq> None"
  shows "\<exists>p' oc' s'. process_files L (p, oc, s) = Inr (p', oc', s') \<and>
           frame {MAIN_PDF_FOLDER, EXCEPTION_FOLDER} s s' \<and>
           (\<forall>n. \<not> is_pdf_name n \<longrightarrow>
              lookup s' EXCEPTION_FOLDER n =
                (case map_of (rev L) n of None \<Rightarrow> lookup s EXCEPTION_FOLDER n | Some src \<Rightarrow> Some src))"
  using assms
proof (induction L arbitrary: p oc s)
  case Nil
  then show ?case by simp
next
  case (Cons e L)
  obtain f src where e: "e = (f, src)" by (cases e)
  from Cons.prems have rd: "readable src" by (simp add: e)
  from process_file_ok [OF rd Cons.prems(2,3), of f p oc] obtain p1 oc1 s1 where
    1: "process_file src f (p, oc, s) = Inr (p1, oc1, s1)"
    and f1: "frame {MAIN_PDF_FOLDER, EXCEPTION_FOLDER} s s1"
    and l1: "\<not> is_pdf_name f \<longrightarrow> lookup s1 EXCEPTION_FOLDER f = Some src"
    and l2: "\<forall>n. n \<noteq> f \<longrightarrow> lookup s1 EXCEPTION_FOLDER n = lookup s EXCEPTION_FOLDER n"
    by blast
  have d1: "dirs s1 MAIN_PDF_FOLDER \<noteq> None" "dirs s1 EXCEPTION_FOLDER \<noteq> None"
    using f1 Cons.prems(2,3) by (simp_all add: frame_exists)
  from Cons.prems(1) have "\<forall>e\<in>set L. readable (snd e)" by simp
  from Cons.IH [OF this d1, of p1 oc1] obtain p' oc' s' where
    2: "process_files L (p1, oc1, s1) = Inr (p', oc', s')"
    and f2: "frame {MAIN_PDF_FOLDER, EXCEPTION_FOLDER} s1 s'"
    and l3: "\<forall>n. \<not> is_pdf_name n \<longrightarrow>
              lookup s' EXCEPTION_FOLDER n =
                (case map_of (rev L) n of None \<Rightarrow> lookup s1 EXCEPTION_FOLDER n | Some src \<Rightarrow> Some src)"
    by blast
  have "process_files (e # L) (p, oc, s) = Inr (p', oc', s')"
    using 1 2 by (simp add: e)
  moreover have "frame {MAIN_PDF_FOLDER, EXCEPTION_FOLDER} s s'"
    using f1 f2 by (rule frame_trans)
  moreover have "\<forall>n. \<not> is_pdf_name n \<longrightarrow>
              lookup s' EXCEPTION_FOLDER n =
                (case map_of (rev (e # L)) n of None \<Rightarrow> lookup s EXCEPTION_FOLDER n | Some src \<Rightarrow> Some src)"
    using l1 l2 l3 by (auto simp: e map_add_def split: option.splits)
  ultimately show ?case by blast
qed

section \<open>The whole run\<close>

text \<open>The files the intake visits, in the order of its loop.\<close>

definition visited :: "(string \<times> node) list \<Rightarrow> (string \<times> regfile) list" where
  "visited es = (if list_ex is_dir es then walk es else files es)"

lemma process_file_frame:
  "process_file src f (p, oc, s) = Inr (p', oc', s') \<Longrightarrow> frame {MAIN_PDF_FOLDER, EXCEPTION_FOLDER} s s'"
  by (auto simp: process_file_def Let_def split: sum.splits if_splits intro: copy2_frame_in)

lemma process_files_frame:
  "process_files L (p, oc, s) = Inr (p', oc', s') \<Longrightarrow> frame {MAIN_PDF_FOLDER, EXCEPTION_FOLDER} s s'"
  "process_files L (p, oc, s) = Inl (e, s'') \<Longrightarrow> frame {MAIN_PDF_FOLDER, EXCEPTION_FOLDER} s s''"
proof (induction L arbitrary: p oc s)
  case Nil
  { case 1 then show ?case by simp }
  { case 2 then show ?case by simp }
next
  case (Cons x L)
  obtain f src where x: "x = (f, src)" by (cases x)
  { case 1
    then obtain p1 oc1 s1 where a: "process_file src f (p, oc, s) = Inr (p1, oc1, s1)"
      and b: "process_files L (p1, oc1, s1) = Inr (p', oc', s')"
      by (auto simp: x split: sum.splits)
    from process_file_frame [OF a] Cons.IH(1) [OF b] show ?case by (rule frame_trans) }
  { case 2
    show ?case
    proof (cases "process_file src f (p, oc, s)")
      case (Inl err)
      with 2 show ?thesis by (simp add: x)
    next
      case (Inr v)
      obtain p1 oc1 s1 where v: "v = (p1, oc1, s1)" by (cases v)
      with Inr 2 have b: "process_files L (p1, oc1, s1) = Inl (e, s'')" by (simp add: x)
      from process_file_frame [OF Inr [unfolded v]] Cons.IH(2) [OF b] show ?thesis by (rule frame_trans)
    qed }
qed

lemma copy_pdfs_to_main_folder_frame:
  "frame {MAIN_PDF_FOLDER, EXCEPTION_FOLDER} s (copy_pdfs_to_main_folder src s)"
proof (cases src)
  case None
  then show ?thesis by (simp add: copy_pdfs_to_main_folder_def Let_def)
next
  case (Some es)
  let ?L = "if list_ex is_dir es then walk es else files es"
  show ?thesis
  proof (cases "process_files ?L (0, 0, log CopyingFiles s)")
    case (Inl a)
    obtain e s1 where a: "a = (e, s1)" by (cases a)
    from process_files_frame(2) [OF Inl [unfolded a]] have "frame {MAIN_PDF_FOLDER, EXCEPTION_FOLDER} s s1"
      by simp
    with Some Inl a show ?thesis by (simp add: copy_pdfs_to_main_folder_def Let_def)
  next
    case (Inr v)
    obtain p1 oc1 s1 where v: "v = (p1, oc1, s1)" by (cases v)
    from process_files_frame(1) [OF Inr [unfolded v]] have "frame {MAIN_PDF_FOLDER, EXCEPTION_FOLDER} s s1"
      by simp
    with Some Inr v show ?thesis by (simp add: copy_pdfs_to_main_folder_def Let_def)
  qed
qed

lemma copy_pdfs_to_main_folder_exception:
  assumes "\<forall>e\<in>set (visited es). readable (snd e)"
    and "dirs s MAIN_PDF_FOLDER \<noteq> None" "dirs s EXCEPTION_FOLDER \<noteq> None"
    and "\<not> is_pdf_name n"
  shows "lookup (copy_pdfs_to_main_folder (Some es) s) EXCEPTION_FOLDER n =
           (case map_of (rev (visited es)) n of None \<Rightarrow> lookup s EXCEPTION_FOLDER n | Some src \<Rightarrow> Some src)"
proof -
  have d: "dirs (log CopyingFiles s) MAIN_PDF_FOLDER \<noteq> None" "dirs (log CopyingFiles s) EXCEPTION_FOLDER \<noteq> None"
    using assms(2,3) by simp_all
  from process_files_ok [OF assms(1) d, of 0 0] obtain p' oc' s' where
    1: "process_files (visited es) (0, 0, log CopyingFiles s) = Inr (p', oc', s')"
    and 2: "\<forall>n. \<not> is_pdf_name n \<longrightarrow>
              lookup s' EXCEPTION_FOLDER n =
                (case map_of (rev (visited es)) n of None \<Rightarrow> lookup (log CopyingFiles s) EXCEPTION_FOLDER n
                 | Some src \<Rightarrow> Some src)"
    by blast
  from 1 have "copy_pdfs_to_main_folder (Some es) s = log (NonPdfsMoved oc') (log (PdfsCopied p') s')"
    by (simp add: copy_pdfs_to_main_folder_def Let_def visited_def)
  with 2 assms(4) show ?thesis by (simp split: option.splits)
qed

lemma deduplicate_text_files_ok:
  "dirs s EXTRACTED_TEXT_FOLDER \<noteq> None \<Longrightarrow> \<exists>s'. deduplicate_text_files env s = Inr s'"
  by (auto simp: deduplicate_text_files_def Let_def listdir_def split: sum.splits prod.splits option.splits)

lemma update_repository_ok:
  "dirs s EXTRACTED_TEXT_FOLDER \<noteq> None \<Longrightarrow> \<exists>s'. update_repository env r s = Inr s'"
  by (auto simp: update_repository_def Let_def listdir_def split: sum.splits prod.splits option.splits)

lemma main_Inr:
  assumes "main env src r s = Inr s'"
  obtains s2 s3 s4 s5 s6 where
    "extract_texts env (copy_pdfs_to_main_folder src (ensure_folders (log Version s))) = Inr s2"
    "deduplicate_text_files env s2 = Inr s3"
    "cross_compare_with_repository env r s3 = Inr s4"
    "update_repository env r s4 = Inr s5"
    "cleanup_main_pdf_folder s5 = Inr s6"
    "s' = log AllTasksCompleted s6"
  using assms by (auto simp: main_def Let_def split: sum.splits)

text \<open>The five working folders.\<close>

definition buckets :: "path set" where
  "buckets = {MAIN_PDF_FOLDER, EXTRACTED_TEXT_FOLDER, EXCEPTION_FOLDER, UNIQUE_INVOICES_FOLDER,
              DUPLICATES_INVOICES_FOLDER}"

lemma frame_buckets: "frame D s s' \<Longrightarrow> D \<subseteq> buckets \<Longrightarrow> frame buckets s s'"
  by (rule frame_mono)

lemma ensure_folders_buckets:
  "d \<in> buckets \<Longrightarrow> dirs (ensure_folders s) d \<noteq> None"
  using ensure_folders_facts(4-8) [of s] by (auto simp: buckets_def)

text \<open>
  The run up to the comparison: it returns, every working folder exists, and nothing but
  the working folders has changed.
\<close>

lemma main_before_comparison:
  obtains s2 s3 where
    "extract_texts env (copy_pdfs_to_main_folder src (ensure_folders (log Version s))) = Inr s2"
    "deduplicate_text_files env s2 = Inr s3"
    "frame buckets (ensure_folders (log Version s)) s2"
    "frame buckets s2 s3"
proof -
  let ?s0 = "ensure_folders (log Version s)"
  let ?s1 = "copy_pdfs_to_main_folder src ?s0"
  have f1: "frame buckets ?s0 ?s1"
    using copy_pdfs_to_main_folder_frame by (rule frame_buckets) (simp add: buckets_def)
  have "dirs ?s1 MAIN_PDF_FOLDER \<noteq> None"
    using f1 ensure_folders_buckets [of MAIN_PDF_FOLDER "log Version s"]
    by (simp add: frame_exists buckets_def)
  then obtain s2 where 2: "extract_texts env ?s1 = Inr s2" using extract_texts_ok by blast
  have f2: "frame buckets ?s1 s2"
    using extract_texts_frame [OF 2] by (rule frame_buckets) (simp add: buckets_def)
  have f02: "frame buckets ?s0 s2" using f1 f2 by (rule frame_trans)
  have "dirs s2 EXTRACTED_TEXT_FOLDER \<noteq> None"
    using f02 ensure_folders_buckets [of EXTRACTED_TEXT_FOLDER "log Version s"]
    by (simp add: frame_exists buckets_def)
  then obtain s3 where 3: "deduplicate_text_files env s2 = Inr s3"
    using deduplicate_text_files_ok by blast
  have f3: "frame buckets s2 s3"
    using deduplicate_text_files_frame [OF 3] by (rule frame_buckets) (simp add: buckets_def)
  from 2 3 f02 f3 show ?thesis by (rule that)
qed

lemma frame_Folder: "frame buckets s s' \<Longrightarrow> dirs s' (Folder r) = dirs s (Folder r)"
  by (erule frame_dirs) (simp add: buckets_def)

lemma main_ok:
  assumes "dirs s (Folder r) \<noteq> None"
  shows "\<exists>s'. main env src r s = Inr s'"
proof -
  let ?s0 = "ensure_folders (log Version s)"
  obtain s2 s3 where 2: "extract_texts env (copy_pdfs_to_main_folder src ?s0) = Inr s2"
    and 3: "deduplicate_text_files env s2 = Inr s3"
    and f2: "frame buckets ?s0 s2" and f3: "frame buckets s2 s3"
    by (rule main_before_comparison)
  have f03: "frame buckets ?s0 s3" using f2 f3 by (rule frame_trans)
  have b3: "dirs s3 d \<noteq> None" if "d \<in> buckets" for d
    using f03 ensure_folders_buckets [OF that, of "log Version s"] by (simp add: frame_exists)
  have r3: "dirs s3 (Folder r) \<noteq> None"
    using frame_Folder [OF f03, of r] assms by (simp add: ensure_folders_facts)
  obtain s4 where 4: "cross_compare_with_repository env r s3 = Inr s4"
    using cross_compare_ok [OF r3 b3 b3] by (auto simp: buckets_def)
  have b4: "dirs s4 d \<noteq> None" if "d \<in> buckets" for d
    using cross_compare_frame [OF 4] b3 [OF that] by (simp add: frame_exists)
  obtain s5 where 5: "update_repository env r s4 = Inr s5"
    using update_repository_ok [of s4] b4 [of EXTRACTED_TEXT_FOLDER] by (auto simp: buckets_def)
  have b5: "dirs s5 d \<noteq> None" if "d \<in> buckets" for d
    using update_repository_frame [OF 5] b4 [OF that] by (simp add: frame_exists)
  obtain s6 where 6: "cleanup_main_pdf_folder s5 = Inr s6"
    using cleanup_main_pdf_folder_ok [of s5] b5 [of MAIN_PDF_FOLDER] by (auto simp: buckets_def)
  from 2 3 4 5 6 show ?thesis by (simp add: main_def Let_def)
qed

lemma map_of_rev_Some:
  "(n, f) \<in> set L \<Longrightarrow> \<exists>f'. (n, f') \<in> set L \<and> map_of (rev L) n = Some f'"
proof -
  assume "(n, f) \<in> set L"
  then have "n \<in> fst ` set (rev L)" by force
  then obtain f' where "map_of (rev L) n = Some f'"
    by (metis map_of_eq_None_iff not_Some_eq)
  moreover from this have "(n, f') \<in> set L" using map_of_SomeD by fastforce
  ultimately show ?thesis by blast
qed

text \<open>
  C7. The run on a source folder all of whose files can be read, with a repository that
  exists. The run returns. A file of the source whose name does not end in \<open>.pdf\<close> is,
  after the run, in the Exception folder: under its name there is the file of that name
  that the intake visited last. The Unique folder has under that name what it had before
  the run: the last step of the comparison copies only the names that end in \<open>.pdf\<close>, so
  the file is not copied there (the example after the theorem).
\<close>

theorem non_pdf_source_file_in_exception_only:
  assumes "dirs s (Folder repository_folder) \<noteq> None"
    and "\<forall>e\<in>set (visited es). readable (snd e)"
    and "(n, f) \<in> set (visited es)"
    and "\<not> endswith (lower_name n) ''.pdf''"
  shows "\<exists>s'. main env (Some es) repository_folder s = Inr s' \<and>
           lookup s' EXCEPTION_FOLDER n = map_of (rev (visited es)) n \<and>
           (\<exists>f'. (n, f') \<in> set (visited es) \<and> lookup s' EXCEPTION_FOLDER n = Some f') \<and>
           lookup s' UNIQUE_INVOICES_FOLDER n = lookup s UNIQUE_INVOICES_FOLDER n"
proof -
  let ?r = repository_folder
  let ?s0 = "ensure_folders (log Version s)"
  let ?s1 = "copy_pdfs_to_main_folder (Some es) ?s0"
  have np: "\<not> is_pdf_name n" using assms(4) by (simp add: is_pdf_name_def)
  obtain s' where run: "main env (Some es) ?r s = Inr s'"
    using main_ok [OF assms(1)] by blast
  then obtain s2 s3 s4 s5 s6 where
    2: "extract_texts env ?s1 = Inr s2"
    and 3: "deduplicate_text_files env s2 = Inr s3"
    and 4: "cross_compare_with_repository env ?r s3 = Inr s4"
    and 5: "update_repository env ?r s4 = Inr s5"
    and 6: "cleanup_main_pdf_folder s5 = Inr s6"
    and s': "s' = log AllTasksCompleted s6"
    by (rule main_Inr)
  from map_of_rev_Some [OF assms(3)] obtain f' where
    f': "(n, f') \<in> set (visited es)" "map_of (rev (visited es)) n = Some f'"
    by blast
  have l0: "lookup ?s0 d n = lookup s d n" for d
    by (simp add: ensure_folders_facts)
  have e1: "lookup ?s1 EXCEPTION_FOLDER n = Some f'"
    using copy_pdfs_to_main_folder_exception [OF assms(2) ensure_folders_facts(4) ensure_folders_facts(6) np]
      f'(2) by simp
  have u1: "lookup ?s1 UNIQUE_INVOICES_FOLDER n = lookup s UNIQUE_INVOICES_FOLDER n"
    using frame_lookup [OF copy_pdfs_to_main_folder_frame [of ?s0 "Some es"], of UNIQUE_INVOICES_FOLDER n] l0
    by simp
  have e2: "lookup s2 EXCEPTION_FOLDER n = Some f'"
    using extract_texts_exception [OF 2 np] e1 by simp
  have u2: "lookup s2 UNIQUE_INVOICES_FOLDER n = lookup s UNIQUE_INVOICES_FOLDER n"
    using frame_lookup [OF extract_texts_frame [OF 2], of UNIQUE_INVOICES_FOLDER n] u1 by simp
  have e3: "lookup s3 EXCEPTION_FOLDER n = Some f'"
    using frame_lookup [OF deduplicate_text_files_frame [OF 3], of EXCEPTION_FOLDER n] e2 by simp
  have u3: "lookup s3 UNIQUE_INVOICES_FOLDER n = lookup s UNIQUE_INVOICES_FOLDER n"
    using frame_lookup [OF deduplicate_text_files_frame [OF 3], of UNIQUE_INVOICES_FOLDER n] u2 by simp
  have e4: "lookup s4 EXCEPTION_FOLDER n = Some f'"
    using frame_lookup [OF cross_compare_frame [OF 4], of EXCEPTION_FOLDER n] e3 by simp
  have u4: "lookup s4 UNIQUE_INVOICES_FOLDER n = lookup s UNIQUE_INVOICES_FOLDER n"
    using cross_compare_unique [OF 4 np] u3 by simp
  have e5: "lookup s5 EXCEPTION_FOLDER n = Some f'"
    using frame_lookup [OF update_repository_frame [OF 5], of EXCEPTION_FOLDER n] e4 by simp
  have u5: "lookup s5 UNIQUE_INVOICES_FOLDER n = lookup s UNIQUE_INVOICES_FOLDER n"
    using frame_lookup [OF update_repository_frame [OF 5], of UNIQUE_INVOICES_FOLDER n] u4 by simp
  have e6: "lookup s6 EXCEPTION_FOLDER n = Some f'"
    using cleanup_main_pdf_folder_exception [OF 6 np] e5 by simp
  have u6: "lookup s6 UNIQUE_INVOICES_FOLDER n = lookup s UNIQUE_INVOICES_FOLDER n"
    using frame_lookup [OF cleanup_main_pdf_folder_frame [OF 6], of UNIQUE_INVOICES_FOLDER n] u5 by simp
  from run s' e6 u6 f' show ?thesis by auto
qed

definition notes_example :: state where
  "notes_example = empty_buckets\<lparr>dirs := (dirs empty_buckets)(Folder ''repo'' \<mapsto> [])\<rparr>"

theorem non_pdf_source_file_in_exception_only_witness:
  "\<exists>s'. main plain_env
          (Some [(''notes.txt'', File (plain_file ''memo'' True)),
                 (''sub'', Dir [(''readme.md'', File (plain_file ''read me'' True))])])
          ''repo'' notes_example = Inr s' \<and>
        lookup s' EXCEPTION_FOLDER ''readme.md'' = Some (plain_file ''read me'' True) \<and>
        lookup s' UNIQUE_INVOICES_FOLDER ''readme.md'' = None"
proof -
  let ?es = "[(''notes.txt'', File (plain_file ''memo'' True)),
              (''sub'', Dir [(''readme.md'', File (plain_file ''read me'' True))])]"
  have v: "visited ?es = [(''notes.txt'', plain_file ''memo'' True), (''readme.md'', plain_file ''read me'' True)]"
    by (simp add: visited_def)
  have 1: "dirs notes_example (Folder ''repo'') \<noteq> None"
    by (simp add: notes_example_def)
  have 2: "\<forall>e\<in>set (visited ?es). readable (snd e)"
    unfolding v by (simp add: plain_file_def)
  have 3: "(''readme.md'', plain_file ''read me'' True) \<in> set (visited ?es)"
    unfolding v by simp
  have 4: "\<not> endswith (lower_name ''readme.md'') ''.pdf''"
    by (simp add: name_defs)
  have 5: "lookup notes_example UNIQUE_INVOICES_FOLDER ''readme.md'' = None"
    by (simp add: notes_example_def empty_buckets_def lookup_def)
  from non_pdf_source_file_in_exception_only [OF 1 2 3 4, of plain_env] show ?thesis
    by (simp add: v 5)
qed

text \<open>
  As the specification words it, the file is also in the Unique folder after the run. It
  is not: the run on a source folder that holds only \<open>notes.txt\<close> returns with that file
  in the Exception folder and with an empty Unique folder. And when the file cannot be
  read, the intake stops at it and the file is in neither folder.
\<close>

definition notes_result :: state where
  "notes_result =
     notes_example
       \<lparr>dirs := (dirs notes_example)(EXCEPTION_FOLDER \<mapsto> [(''notes.txt'', plain_file ''memo'' True)]),
        messages :=
          [Version, CopyingFiles, NonPdfToException ''notes.txt'', PdfsCopied 0, NonPdfsMoved 1,
           StartingExtraction, ExtractionDone 0 0, StartingDeduplication, DeduplicationDone 0,
           CrossComparing ''repo'', CrossComparisonComplete 0 0, UpdatingRepository ''repo'',
           MovedRenamedCount 0, NoLeftoverPdfs, AllTasksCompleted]\<rparr>"

definition locked_notes_result :: state where
  "locked_notes_result =
     notes_example
       \<lparr>messages :=
          [Version, CopyingFiles, ErrorCopying PermissionError,
           StartingExtraction, ExtractionDone 0 0, StartingDeduplication, DeduplicationDone 0,
           CrossComparing ''repo'', CrossComparisonComplete 0 0, UpdatingRepository ''repo'',
           MovedRenamedCount 0, NoLeftoverPdfs, AllTasksCompleted]\<rparr>"

theorem non_pdf_source_file_counterexample:
  "main plain_env (Some [(''notes.txt'', File (plain_file ''memo'' True))]) ''repo'' notes_example =
     Inr notes_result \<and>
   \<not> endswith (lower_name ''notes.txt'') ''.pdf'' \<and>
   lookup notes_result EXCEPTION_FOLDER ''notes.txt'' = Some (plain_file ''memo'' True) \<and>
   lookup notes_result UNIQUE_INVOICES_FOLDER ''notes.txt'' = None \<and>
   dirs notes_result UNIQUE_INVOICES_FOLDER = Some [] \<and>
   main plain_env (Some [(''notes.txt'', File (plain_file ''memo'' False))]) ''repo'' notes_example =
     Inr locked_notes_result \<and>
   lookup locked_notes_result EXCEPTION_FOLDER ''notes.txt'' = None \<and>
   lookup locked_notes_result UNIQUE_INVOICES_FOLDER ''notes.txt'' = None"
proof -
  have e: "ensure_folders (log Version notes_example) = log Version notes_example"
    by (simp add: ensure_folders_def makedirs_def log_def notes_example_def empty_buckets_def)
  have 1: "main plain_env (Some [(''notes.txt'', File (plain_file ''memo'' True))]) ''repo'' notes_example =
     Inr notes_result"
    unfolding main_def e
    by (simp add: copy_pdfs_to_main_folder_def process_file_def extract_texts_def
          deduplicate_text_files_def cross_compare_with_repository_def update_repository_def
          cleanup_main_pdf_folder_def copy_exception_def name_defs os_defs
          notes_example_def notes_result_def empty_buckets_def plain_file_def Let_def)
  have 2: "main plain_env (Some [(''notes.txt'', File (plain_file ''memo'' False))]) ''repo'' notes_example =
     Inr locked_notes_result"
    unfolding main_def e
    by (simp add: copy_pdfs_to_main_folder_def process_file_def extract_texts_def
          deduplicate_text_files_def cross_compare_with_repository_def update_repository_def
          cleanup_main_pdf_folder_def copy_exception_def name_defs os_defs
          notes_example_def locked_notes_result_def empty_buckets_def plain_file_def Let_def)
  have 3: "\<not> endswith (lower_name ''notes.txt'') ''.pdf''"
    by (simp add: name_defs)
  have 4: "lookup notes_result EXCEPTION_FOLDER ''notes.txt'' = Some (plain_file ''memo'' True)"
    "lookup notes_result UNIQUE_INVOICES_FOLDER ''notes.txt'' = None"
    "dirs notes_result UNIQUE_INVOICES_FOLDER = Some []"
    by (simp_all add: notes_result_def notes_example_def empty_buckets_def lookup_def)
  have 5: "lookup locked_notes_result EXCEPTION_FOLDER ''notes.txt'' = None"
    "lookup locked_notes_result UNIQUE_INVOICES_FOLDER ''notes.txt'' = None"
    by (simp_all add: locked_notes_result_def notes_example_def empty_buckets_def lookup_def)
  from 1 2 3 4 5 show ?thesis by simp
qed

section \<open>The set the comparison uses\<close>

lemma compare_files_fold: "compare_files env H fs v = fold (compare_file env H) fs v"
  by (induction fs arbitrary: v) simp_all

lemma listdir_names: "dirs s d = Some R \<Longrightarrow> listdir s d = Inr ns \<Longrightarrow> ns = map fst R"
  by (simp add: listdir_def)

text \<open>
  The stage, for a repository \<open>R\<close>: the first loop leaves \<open>repo_hashes\<close> as the set of the
  fingerprints of \<open>R\<close>; the second loop runs its body with this one set on every text;
  the repository is as it was.
\<close>

lemma cross_compare_snapshot:
  assumes "cross_compare_with_repository env r s = Inr s'"
    and "dirs s (Folder r) = Some R" and "distinct (map fst R)"
  obtains s1 names cu cd s2 xs where
    "read_repo_files env r (map fst R) ({}, log (CrossComparing r) s) = (repo_fingerprints env R, s1)"
    "listdir s1 EXTRACTED_TEXT_FOLDER = Inr names"
    "fold (compare_file env (repo_fingerprints env R))
       (filter (\<lambda>f. endswith (lower_name f) ''.txt'') names) (0, 0, s1) = (cu, cd, s2)"
    "listdir s2 EXCEPTION_FOLDER = Inr xs"
    "s' = log (CrossComparisonComplete cu cd) (copy_exceptions xs s2)"
    "dirs s' (Folder r) = Some R"
proof -
  from assms(1) obtain repo_names H s1 names cu cd s2 xs where
    rn: "listdir s (Folder r) = Inr repo_names"
    and rr: "read_repo_files env r repo_names ({}, log (CrossComparing r) s) = (H, s1)"
    and nm: "listdir s1 EXTRACTED_TEXT_FOLDER = Inr names"
    and cf: "compare_files env H (filter (\<lambda>f. endswith (lower_name f) ''.txt'') names) (0, 0, s1) = (cu, cd, s2)"
    and xs: "listdir s2 EXCEPTION_FOLDER = Inr xs"
    and s': "s' = log (CrossComparisonComplete cu cd) (copy_exceptions xs s2)"
    by (rule cross_compare_Inr)
  have names: "repo_names = map fst R" using assms(2) rn by (rule listdir_names)
  have "dirs (log (CrossComparing r) s) (Folder r) = Some R" using assms(2) by simp
  from read_repo_files_snapshot [OF this assms(3), of env] rr names
  have H: "H = repo_fingerprints env R" by simp
  have "dirs s' (Folder r) = dirs s (Folder r)"
    using cross_compare_frame [OF assms(1)] by (rule frame_dirs) simp
  with assms(2) have "dirs s' (Folder r) = Some R" by simp
  with rr nm cf xs s' show ?thesis
    unfolding H names compare_files_fold by (rule that)
qed

text \<open>
  C5. A run on a repository \<open>R\<close>. The stages before the comparison return and leave the
  repository as it is. The comparison builds \<open>repo_hashes\<close> once, in its first loop, and the
  set it gets is the set of the fingerprints of the text files of \<open>R\<close>, the repository as
  it was when the run began. The second loop is the body \<open>compare_file\<close> run on one text
  after the other with this same set: classifying adds nothing to it and takes nothing
  from it. The comparison does not change the repository. The updater runs on the state
  the comparison has left, so what it writes into the repository has no part in the set.
\<close>

theorem comparison_set_is_snapshot_of_repository:
  assumes "dirs s (Folder r) = Some R" and "distinct (map fst R)"
  shows "\<exists>s2 s3 s3a names cu cd s3b xs s4 s5 s6.
           extract_texts env (copy_pdfs_to_main_folder src (ensure_folders (log Version s))) = Inr s2 \<and>
           deduplicate_text_files env s2 = Inr s3 \<and>
           dirs s3 (Folder r) = Some R \<and>
           read_repo_files env r (map fst R) ({}, log (CrossComparing r) s3) =
             (repo_fingerprints env R, s3a) \<and>
           listdir s3a EXTRACTED_TEXT_FOLDER = Inr names \<and>
           fold (compare_file env (repo_fingerprints env R))
             (filter (\<lambda>f. endswith (lower_name f) ''.txt'') names) (0, 0, s3a) = (cu, cd, s3b) \<and>
           listdir s3b EXCEPTION_FOLDER = Inr xs \<and>
           cross_compare_with_repository env r s3 =
             Inr (log (CrossComparisonComplete cu cd) (copy_exceptions xs s3b)) \<and>
           s4 = log (CrossComparisonComplete cu cd) (copy_exceptions xs s3b) \<and>
           dirs s4 (Folder r) = Some R \<and>
           update_repository env r s4 = Inr s5 \<and>
           cleanup_main_pdf_folder s5 = Inr s6 \<and>
           main env src r s = Inr (log AllTasksCompleted s6)"
proof -
  let ?s0 = "ensure_folders (log Version s)"
  have "dirs s (Folder r) \<noteq> None" using assms(1) by simp
  then obtain s' where run: "main env src r s = Inr s'" using main_ok by blast
  then obtain s2 s3 s4 s5 s6 where
    2: "extract_texts env (copy_pdfs_to_main_folder src ?s0) = Inr s2"
    and 3: "deduplicate_text_files env s2 = Inr s3"
    and 4: "cross_compare_with_repository env r s3 = Inr s4"
    and 5: "update_repository env r s4 = Inr s5"
    and 6: "cleanup_main_pdf_folder s5 = Inr s6"
    and s': "s' = log AllTasksCompleted s6"
    by (rule main_Inr)
  have f1: "frame buckets ?s0 (copy_pdfs_to_main_folder src ?s0)"
    using copy_pdfs_to_main_folder_frame by (rule frame_buckets) (simp add: buckets_def)
  have f2: "frame buckets (copy_pdfs_to_main_folder src ?s0) s2"
    using extract_texts_frame [OF 2] by (rule frame_buckets) (simp add: buckets_def)
  have f3: "frame buckets s2 s3"
    using deduplicate_text_files_frame [OF 3] by (rule frame_buckets) (simp add: buckets_def)
  have "frame buckets ?s0 s3" using f1 f2 f3 by (blast intro: frame_trans)
  then have "dirs s3 (Folder r) = dirs ?s0 (Folder r)" by (rule frame_Folder)
  then have r3: "dirs s3 (Folder r) = Some R"
    using assms(1) by (simp add: ensure_folders_facts)
  from cross_compare_snapshot [OF 4 r3 assms(2)] obtain s3a names cu cd s3b xs where
    c: "read_repo_files env r (map fst R) ({}, log (CrossComparing r) s3) = (repo_fingerprints env R, s3a)"
    "listdir s3a EXTRACTED_TEXT_FOLDER = Inr names"
    "fold (compare_file env (repo_fingerprints env R))
       (filter (\<lambda>f. endswith (lower_name f) ''.txt'') names) (0, 0, s3a) = (cu, cd, s3b)"
    "listdir s3b EXCEPTION_FOLDER = Inr xs"
    "s4 = log (CrossComparisonComplete cu cd) (copy_exceptions xs s3b)"
    "dirs s4 (Folder r) = Some R"
    by blast
  from 2 3 r3 c 4 5 6 run s' show ?thesis by blast
qed

definition snapshot_example :: state where
  "snapshot_example =
     empty_buckets\<lparr>dirs := (dirs empty_buckets)
       (Folder ''repo'' \<mapsto> [(''Invoice_1.txt'', plain_file ''invoice 7 total 12'' True)])\<rparr>"

theorem comparison_set_is_snapshot_of_repository_witness:
  "\<exists>s2 s3 s3a names cu cd s3b xs s4 s5 s6.
     extract_texts plain_env
       (copy_pdfs_to_main_folder (Some [(''notes.txt'', File (plain_file ''memo'' True))])
          (ensure_folders (log Version snapshot_example))) = Inr s2 \<and>
     deduplicate_text_files plain_env s2 = Inr s3 \<and>
     dirs s3 (Folder ''repo'') = Some [(''Invoice_1.txt'', plain_file ''invoice 7 total 12'' True)] \<and>
     read_repo_files plain_env ''repo'' [''Invoice_1.txt''] ({}, log (CrossComparing ''repo'') s3) =
       (repo_fingerprints plain_env [(''Invoice_1.txt'', plain_file ''invoice 7 total 12'' True)], s3a) \<and>
     listdir s3a EXTRACTED_TEXT_FOLDER = Inr names \<and>
     fold (compare_file plain_env
             (repo_fingerprints plain_env [(''Invoice_1.txt'', plain_file ''invoice 7 total 12'' True)]))
       (filter (\<lambda>f. endswith (lower_name f) ''.txt'') names) (0, 0, s3a) = (cu, cd, s3b) \<and>
     listdir s3b EXCEPTION_FOLDER = Inr xs \<and>
     cross_compare_with_repository plain_env ''repo'' s3 =
       Inr (log (CrossComparisonComplete cu cd) (copy_exceptions xs s3b)) \<and>
     s4 = log (CrossComparisonComplete cu cd) (copy_exceptions xs s3b) \<and>
     dirs s4 (Folder ''repo'') = Some [(''Invoice_1.txt'', plain_file ''invoice 7 total 12'' True)] \<and>
     update_repository plain_env ''repo'' s4 = Inr s5 \<and>
     cleanup_main_pdf_folder s5 = Inr s6 \<and>
     main plain_env (Some [(''notes.txt'', File (plain_file ''memo'' True))]) ''repo'' snapshot_example =
       Inr (log AllTasksCompleted s6)"
proof -
  have 1: "dirs snapshot_example (Folder ''repo'') =
             Some [(''Invoice_1.txt'', plain_file ''invoice 7 total 12'' True)]"
    by (simp add: snapshot_example_def)
  have 2: "distinct (map fst [(''Invoice_1.txt'', plain_file ''invoice 7 total 12'' True)])"
    by simp
  from comparison_set_is_snapshot_of_repository [OF 1 2, of plain_env
         "Some [(''notes.txt'', File (plain_file ''memo'' True))]"]
  show ?thesis by simp
qed

section \<open>The first text seen with a fingerprint\<close>

text \<open>
  The fingerprint the loops compute for a text in the extracted-text folder: the first two
  statements of their bodies. There is none when the file cannot be read or its text cannot
  be hashed; then the handler of the body takes over.
\<close>

definition text_fingerprint :: "env \<Rightarrow> state \<Rightarrow> string \<Rightarrow> string option" where
  "text_fingerprint env s f =
     (case read_text s EXTRACTED_TEXT_FOLDER f of
        Inl e \<Rightarrow> None
      | Inr txt \<Rightarrow> (case sha256_hash (ucd env) txt of Inl e \<Rightarrow> None | Inr h \<Rightarrow> Some h))"

text \<open>
  From \<open>s\<close> to \<open>s'\<close> the PDF \<open>q\<close> is where it was, in the staging folder and in the
  Duplicates folder, or it has gone from the first to the second.
\<close>

definition relocated :: "state \<Rightarrow> state \<Rightarrow> string \<Rightarrow> bool" where
  "relocated s s' q \<longleftrightarrow>
     lookup s' MAIN_PDF_FOLDER q = lookup s MAIN_PDF_FOLDER q \<and>
     lookup s' DUPLICATES_INVOICES_FOLDER q = lookup s DUPLICATES_INVOICES_FOLDER q \<or>
     lookup s MAIN_PDF_FOLDER q \<noteq> None \<and> lookup s' MAIN_PDF_FOLDER q = None \<and>
     lookup s' DUPLICATES_INVOICES_FOLDER q = lookup s MAIN_PDF_FOLDER q"

text \<open>After \<open>s'\<close> the PDF \<open>q\<close> is not in the staging folder; if it was there in \<open>s\<close>, it is in
  the Duplicates folder.\<close>

definition in_duplicates :: "state \<Rightarrow> state \<Rightarrow> string \<Rightarrow> bool" where
  "in_duplicates s s' q \<longleftrightarrow>
     lookup s' MAIN_PDF_FOLDER q = None \<and>
     lookup s' DUPLICATES_INVOICES_FOLDER q =
       (case lookup s MAIN_PDF_FOLDER q of
          Some info \<Rightarrow> Some info
        | None \<Rightarrow> lookup s DUPLICATES_INVOICES_FOLDER q)"

lemma relocated_refl [simp]: "relocated s s q"
  by (simp add: relocated_def)

lemma relocated_log [simp]: "relocated s (log m s') q \<longleftrightarrow> relocated s s' q"
  by (simp add: relocated_def)

lemma relocated_log_left [simp]: "relocated (log m s) s' q \<longleftrightarrow> relocated s s' q"
  by (simp add: relocated_def)


lemma in_duplicates_log [simp]: "in_duplicates s (log m s') q \<longleftrightarrow> in_duplicates s s' q"
  by (simp add: in_duplicates_def)

lemma in_duplicates_log_left [simp]: "in_duplicates (log m s) s' q \<longleftrightarrow> in_duplicates s s' q"
  by (simp add: in_duplicates_def split: option.splits)



lemma text_fingerprint_log [simp]: "text_fingerprint env (log m s) f = text_fingerprint env s f"
  by (simp add: text_fingerprint_def)




subsection \<open>The body of the loop\<close>





subsection \<open>The loop\<close>














end
